theory Spec2Isabelle
  imports Main "HOL-Library.Multiset"
begin

section \<open>JavaScript strings\<close>

text \<open>
  A JavaScript string is a sequence of UTF-16 code units; \<open>length\<close>, indexing,
  \<open>indexOf\<close>, \<open>includes\<close> and the regular expressions of \<open>server.js\<close> all work on
  code units. A code unit is modelled as a natural number, a string as a list of them.
  \<open>str\<close> turns an ASCII literal into such a string.
\<close>

type_synonym jsstring = "nat list"

definition str :: "string \<Rightarrow> jsstring" where
  "str s = map of_char s"

text \<open>The code unit of the space character, the \<open>" "\<close> of the source.\<close>

definition SP :: nat where
  "SP = 32"

text \<open>
  The class \<open>\s\<close> of a JavaScript regular expression (WhiteSpace and LineTerminator);
  \<open>String.prototype.trim\<close> strips the same code units.
\<close>

definition isSpace :: "nat \<Rightarrow> bool" where
  "isSpace c \<longleftrightarrow>
     c = 9 \<or> c = 10 \<or> c = 11 \<or> c = 12 \<or> c = 13 \<or> c = 32 \<or> c = 160 \<or> c = 5760 \<or>
     (8192 \<le> c \<and> c \<le> 8202) \<or> c = 8232 \<or> c = 8233 \<or> c = 8239 \<or> c = 8287 \<or>
     c = 12288 \<or> c = 65279"

text \<open>\<open>s.trim()\<close>\<close>

definition trim :: "jsstring \<Rightarrow> jsstring" where
  "trim s = rev (dropWhile isSpace (rev (dropWhile isSpace s)))"

text \<open>\<open>s.replace(/\s+/g, " ")\<close>: every maximal run of whitespace becomes one space.\<close>

function replaceWsRuns :: "jsstring \<Rightarrow> jsstring" where
  "replaceWsRuns [] = []"
| "replaceWsRuns (c # cs) =
     (if isSpace c then SP # replaceWsRuns (dropWhile isSpace cs)
      else c # replaceWsRuns cs)"
  by pat_completeness auto
termination
  by (relation "measure length") (auto simp: less_Suc_eq_le length_dropWhile_le)

text \<open>\<open>s.startsWith(p)\<close>, \<open>s.endsWith(p)\<close>, \<open>s.includes(p)\<close>\<close>

fun startsWith :: "jsstring \<Rightarrow> jsstring \<Rightarrow> bool" where
  "startsWith s [] = True"
| "startsWith [] (p # ps) = False"
| "startsWith (c # cs) (p # ps) = (c = p \<and> startsWith cs ps)"

definition endsWith :: "jsstring \<Rightarrow> jsstring \<Rightarrow> bool" where
  "endsWith s p = startsWith (rev s) (rev p)"

fun includesStr :: "jsstring \<Rightarrow> jsstring \<Rightarrow> bool" where
  "includesStr [] p = (p = [])"
| "includesStr (c # cs) p = (startsWith (c # cs) p \<or> includesStr cs p)"

text \<open>
  \<open>s.indexOf(t, from)\<close> for \<open>0 \<le> from\<close>: the first index at or after \<open>from\<close> where
  \<open>t\<close> occurs, or \<open>-1\<close>. (An empty \<open>t\<close> is found at \<open>min from (length s)\<close>.)
\<close>

fun indexOfFrom :: "nat \<Rightarrow> jsstring \<Rightarrow> jsstring \<Rightarrow> int" where
  "indexOfFrom pos [] t = (if t = [] then int pos else -1)"
| "indexOfFrom pos (c # cs) t =
     (if startsWith (c # cs) t then int pos else indexOfFrom (Suc pos) cs t)"

definition indexOf :: "jsstring \<Rightarrow> jsstring \<Rightarrow> nat \<Rightarrow> int" where
  "indexOf s t fromIdx = indexOfFrom (min fromIdx (length s)) (drop fromIdx s) t"

section \<open>The text line-break detector\<close>

text \<open>
  The detector runs inside the frame's document. What it reads of an element is the
  sequence of its text nodes in document order (the nodes a \<open>TreeWalker\<close> with
  \<open>SHOW_TEXT\<close> yields) with their \<open>nodeValue\<close>; a node is named by its position in that
  sequence. \<open>elId\<close> and \<open>elOuterHTML\<close> are the element's \<open>id\<close> and \<open>outerHTML\<close>.
\<close>

record domElement =
  elId :: jsstring
  elOuterHTML :: jsstring
  textNodes :: "jsstring list"

text \<open>An entry \<open>{ node, offset }\<close> of the offset map.\<close>

record mapEntry =
  node :: nat
  offset :: nat

text \<open>The loop variables of \<open>buildNormalizedTextAndMap\<close>.\<close>

record normState =
  normalized :: jsstring
  mapping :: "mapEntry list"
  lastWasSpace :: bool

text \<open>The inner loop \<open>for (let i = 0; i < txt.length; i++)\<close>, from index \<open>i\<close> on.\<close>

fun scanText :: "nat \<Rightarrow> nat \<Rightarrow> jsstring \<Rightarrow> normState \<Rightarrow> normState" where
  "scanText nd i [] st = st"
| "scanText nd i (ch # txt) st =
     scanText nd (Suc i) txt
       (if isSpace ch then
          (if \<not> lastWasSpace st \<and> length (normalized st) > 0
           then st\<lparr>normalized := normalized st @ [SP],
                   mapping := mapping st @ [\<lparr>node = nd, offset = i\<rparr>],
                   lastWasSpace := True\<rparr>
           else st)
        else st\<lparr>normalized := normalized st @ [ch],
                mapping := mapping st @ [\<lparr>node = nd, offset = i\<rparr>],
                lastWasSpace := False\<rparr>)"

text \<open>The outer loop \<open>while ((node = walker.nextNode()))\<close>, from node \<open>nd\<close> on.\<close>

fun walkNodes :: "nat \<Rightarrow> jsstring list \<Rightarrow> normState \<Rightarrow> normState" where
  "walkNodes nd [] st = st"
| "walkNodes nd (txt # nodes) st = walkNodes (Suc nd) nodes (scanText nd 0 txt st)"

definition buildNormalizedTextAndMap :: "domElement \<Rightarrow> jsstring \<times> mapEntry list" where
  "buildNormalizedTextAndMap element =
     (let st = walkNodes 0 (textNodes element)
                 \<lparr>normalized = [], mapping = [], lastWasSpace = False\<rparr>;
          (n1, m1) = (if length (normalized st) > 0 \<and> hd (normalized st) = SP
                      then (tl (normalized st), tl (mapping st))
                      else (normalized st, mapping st));
          (n2, m2) = (if length n1 > 0 \<and> last n1 = SP
                      then (butlast n1, butlast m1)
                      else (n1, m1))
      in (n2, m2))"

text \<open>\<open>phrase.replace(/\s+/g, " ").trim()\<close>, the normalization of the phrase.\<close>

definition targetNorm :: "jsstring \<Rightarrow> jsstring" where
  "targetNorm phrase = trim (replaceWsRuns phrase)"

text \<open>
  The search loop \<open>for (let i = 0; i <= occurrence; i++)\<close>: \<open>k\<close> iterations remain,
  \<open>idx\<close> and \<open>from\<close> are the loop variables; the result is the final \<open>idx\<close>.
\<close>

fun searchLoop :: "nat \<Rightarrow> jsstring \<Rightarrow> jsstring \<Rightarrow> int \<Rightarrow> nat \<Rightarrow> int" where
  "searchLoop 0 s t idx fromIdx = idx"
| "searchLoop (Suc k) s t idx fromIdx =
     (let idx' = indexOf s t fromIdx
      in if idx' = -1 then -1
         else searchLoop k s t idx' (nat idx' + length t))"

text \<open>\<open>mapping[i]\<close>: \<open>undefined\<close> (here \<open>None\<close>) outside the array.\<close>

definition arrayGet :: "'a list \<Rightarrow> int \<Rightarrow> 'a option" where
  "arrayGet xs i = (if 0 \<le> i \<and> i < int (length xs) then Some (xs ! nat i) else None)"

text \<open>
  The DOM range the detector builds. \<open>range.setStart(node, offset)\<close> and \<open>setEnd\<close> throw
  (\<open>IndexSizeError\<close>) when the offset is beyond the node's length; the source catches
  that and returns \<open>null\<close>.
\<close>

record domRange =
  startNode :: nat
  startOffset :: nat
  endNode :: nat
  endOffset :: nat

definition setBoundaryOk :: "domElement \<Rightarrow> nat \<Rightarrow> nat \<Rightarrow> bool" where
  "setBoundaryOk element nd off \<longleftrightarrow>
     nd < length (textNodes element) \<and> off \<le> length (textNodes element ! nd)"

text \<open>
  \<open>createRangeForPhraseRobust(element, phrase, occurrence, caseInsensitive)\<close>. The
  element may be \<open>null\<close> (\<open>None\<close>). \<open>toLowerCase\<close> is the engine's Unicode lower-casing,
  taken as a parameter. \<open>None\<close> is the \<open>null\<close> the function returns.
\<close>

definition createRangeForPhraseRobust ::
  "(jsstring \<Rightarrow> jsstring) \<Rightarrow> domElement option \<Rightarrow> jsstring \<Rightarrow> int \<Rightarrow> bool \<Rightarrow> domRange option" where
  "createRangeForPhraseRobust toLowerCase element phrase occurrence caseInsensitive =
     (case element of
        None \<Rightarrow> None
      | Some el \<Rightarrow>
          if phrase = [] then None
          else
            let (normalized, mapping) = buildNormalizedTextAndMap el in
            if length normalized = 0 then None
            else
              let targetN = targetNorm phrase;
                  searchNormalized = (if caseInsensitive then toLowerCase normalized else normalized);
                  targetToSearch = (if caseInsensitive then toLowerCase targetN else targetN);
                  idx = searchLoop (nat (occurrence + 1)) searchNormalized targetToSearch (-1) 0
              in if idx = -1 then None
                 else
                   let startIndex = idx;
                       endIndex = idx + int (length targetToSearch) - 1
                   in (case (arrayGet mapping startIndex, arrayGet mapping endIndex) of
                         (Some startMap, Some endMap) \<Rightarrow>
                           if setBoundaryOk el (node startMap) (offset startMap)
                              \<and> setBoundaryOk el (node endMap) (offset endMap + 1)
                           then Some \<lparr>startNode = node startMap, startOffset = offset startMap,
                                      endNode = node endMap, endOffset = offset endMap + 1\<rparr>
                           else None
                       | _ \<Rightarrow> None))"

text \<open>
  The result object of \<open>isPhraseSingleLineRobust\<close>. \<open>singleLine\<close> is a JavaScript
  boolean or \<open>null\<close> (\<open>None\<close>).
\<close>

record 'r phraseCheck =
  found :: bool
  singleLine :: "bool option"
  rectsCount :: nat
  rects :: "'r list"

text \<open>
  \<open>isPhraseSingleLineRobust(element, phrase, { occurrence, caseInsensitive })\<close>.
  \<open>getClientRects\<close> is the browser's layout: the client rectangles of a range.
\<close>

definition isPhraseSingleLineRobust ::
  "(jsstring \<Rightarrow> jsstring) \<Rightarrow> (domRange \<Rightarrow> 'r list) \<Rightarrow> domElement option \<Rightarrow> jsstring \<Rightarrow> int \<Rightarrow> bool
     \<Rightarrow> 'r phraseCheck" where
  "isPhraseSingleLineRobust toLowerCase getClientRects element phrase occurrence caseInsensitive =
     (case createRangeForPhraseRobust toLowerCase element phrase occurrence caseInsensitive of
        None \<Rightarrow> \<lparr>found = False, singleLine = None, rectsCount = 0, rects = []\<rparr>
      | Some res \<Rightarrow>
          let rectList = getClientRects res;
              rectsCount = length rectList;
              singleLine = (rectsCount = 1)
          in \<lparr>found = True, singleLine = Some singleLine, rectsCount = rectsCount,
              rects = rectList\<rparr>)"

text \<open>
  The normal form of the specification: runs of whitespace collapsed to single
  spaces, no leading or trailing whitespace.
\<close>

fun noDoubleSpace :: "jsstring \<Rightarrow> bool" where
  "noDoubleSpace (a # b # cs) = (\<not> (a = SP \<and> b = SP) \<and> noDoubleSpace (b # cs))"
| "noDoubleSpace cs = True"

definition isNormalized :: "jsstring \<Rightarrow> bool" where
  "isNormalized s \<longleftrightarrow>
     (\<forall>c \<in> set s. isSpace c \<longrightarrow> c = SP) \<and> noDoubleSpace s \<and>
     (s \<noteq> [] \<longrightarrow> \<not> isSpace (hd s) \<and> \<not> isSpace (last s))"

text \<open>
  Lower-casing of the ASCII letters: what \<open>toLowerCase\<close> does on ASCII strings. It
  stands for the engine's function where an example needs a concrete one.
\<close>

definition toLowerASCII :: "jsstring \<Rightarrow> jsstring" where
  "toLowerASCII s = map (\<lambda>c. if 65 \<le> c \<and> c \<le> 90 then c + 32 else c) s"

subsection \<open>Checking the elements of a frame\<close>

definition mazdaModels :: "jsstring list" where
  "mazdaModels =
     [str ''MAZDA CX-60'', str ''MAZDA CX-30'', str ''MAZDA2 HYBRID'', str ''MAZDA CX-80'',
      str ''MAZDA MX-5'', str ''MAZDA CX-5'', str ''MAZDA MX-30'']"

text \<open>The objects \<open>{ model, found, singleLine, rectsCount }\<close> pushed per model.\<close>

record modelStatus =
  model :: jsstring
  msFound :: bool
  msSingleLine :: "bool option"
  msRectsCount :: nat

text \<open>\<open>!v\<close> for a value that is a boolean or \<open>null\<close>.\<close>

definition notJs :: "bool option \<Rightarrow> bool" where
  "notJs v = (case v of None \<Rightarrow> True | Some b \<Rightarrow> \<not> b)"

text \<open>\<open>checkElementForBrokenModels(element)\<close>: the \<open>issues\<close> it returns.\<close>

definition checkElementForBrokenModels ::
  "(jsstring \<Rightarrow> jsstring) \<Rightarrow> (domRange \<Rightarrow> 'r list) \<Rightarrow> domElement \<Rightarrow> modelStatus list" where
  "checkElementForBrokenModels toLowerCase getClientRects element =
     concat (map (\<lambda>m.
        let result = isPhraseSingleLineRobust toLowerCase getClientRects (Some element) m 0 True
        in if found result then
             (if notJs (singleLine result)
              then [\<lparr>model = m, msFound = True, msSingleLine = Some False,
                      msRectsCount = rectsCount result\<rparr>]
              else [])
           else []) mazdaModels)"

text \<open>The \<open>allModelStatuses\<close> loop of \<open>processElements\<close>.\<close>

definition checkAllModelStatuses ::
  "(jsstring \<Rightarrow> jsstring) \<Rightarrow> (domRange \<Rightarrow> 'r list) \<Rightarrow> domElement \<Rightarrow> modelStatus list" where
  "checkAllModelStatuses toLowerCase getClientRects element =
     concat (map (\<lambda>m.
        let result = isPhraseSingleLineRobust toLowerCase getClientRects (Some element) m 0 True
        in if found result then
             [\<lparr>model = m, msFound = True, msSingleLine = singleLine result,
               msRectsCount = rectsCount result\<rparr>]
           else []) mazdaModels)"

text \<open>
  An element as the frame scan reports it:
  \<open>{ id, outerHTML, brokenModels, allModelStatuses }\<close>; the two lists are \<open>null\<close>
  (\<open>None\<close>) when empty.
\<close>

record element =
  id' :: jsstring
  outerHTML :: jsstring
  brokenModels :: "modelStatus list option"
  allModelStatuses :: "modelStatus list option"

definition processElements ::
  "(jsstring \<Rightarrow> jsstring) \<Rightarrow> (domRange \<Rightarrow> 'r list) \<Rightarrow> domElement list \<Rightarrow> element list" where
  "processElements toLowerCase getClientRects elements =
     map (\<lambda>el.
        let broken = checkElementForBrokenModels toLowerCase getClientRects el;
            statuses = checkAllModelStatuses toLowerCase getClientRects el
        in \<lparr>id' = elId el,
            outerHTML = take 500 (elOuterHTML el),
            brokenModels = (if length broken > 0 then Some broken else None),
            allModelStatuses = (if length statuses > 0 then Some statuses else None)\<rparr>)
       elements"

text \<open>
  Example input: the element \<open>frm1_HL_x\<close> whose text is \<open>MAZDA CX-60\<close> in one text node.
\<close>

definition hiddenEl :: domElement where
  "hiddenEl = \<lparr>elId = str ''frm1_HL_x'', elOuterHTML = [], textNodes = [str ''MAZDA CX-60'']\<rparr>"

section \<open>The frame scan of \<open>/api/count\<close>\<close>

subsection \<open>Marker iframes of the main document\<close>

text \<open>An \<open>iframe\<close> element of the main document: its \<open>id\<close>, \<open>src\<close> and \<open>name\<close>.\<close>

record iframe =
  iframeId :: jsstring
  iframeSrc :: jsstring
  iframeName :: jsstring

text \<open>An entry \<open>{ id, src }\<close> of \<open>jvxFrames\<close>.\<close>

record jvxFrame =
  jvxId :: jsstring
  src :: jsstring

text \<open>
  The structured DOM query: the iframes with a non-empty id starting with
  \<open>jvxBase_\<close>. \<open>None\<close> stands for an evaluation that throws; \<open>jvxFrames\<close> is then \<open>[]\<close>.
\<close>

definition detectJvxFrames :: "iframe list option \<Rightarrow> jvxFrame list" where
  "detectJvxFrames doc =
     (case doc of
        None \<Rightarrow> []
      | Some iframes \<Rightarrow>
          map (\<lambda>f. \<lparr>jvxId = iframeId f, src = iframeSrc f\<rparr>)
            (filter (\<lambda>f. iframeId f \<noteq> [] \<and> startsWith (iframeId f) (str ''jvxBase_'')) iframes))"

text \<open>
  The fallback regular expression \<open>/id=["'](jvxBase_[^"']+)["']/g\<close>. \<open>matchMarkerAt s\<close>
  matches it at the start of \<open>s\<close> and gives the captured id and the length of the match:
  the greedy \<open>[^"']+\<close> takes the whole run of non-quote characters, which must be
  non-empty and followed by a quote.
\<close>

definition isQuote :: "nat \<Rightarrow> bool" where
  "isQuote c \<longleftrightarrow> c = 34 \<or> c = 39"

definition matchMarkerAt :: "jsstring \<Rightarrow> (jsstring \<times> nat) option" where
  "matchMarkerAt s =
     (if startsWith s (str ''id='') then
        (case drop 3 s of
           [] \<Rightarrow> None
         | q # r \<Rightarrow>
             if isQuote q \<and> startsWith r (str ''jvxBase_'') then
               (let body = takeWhile (\<lambda>c. \<not> isQuote c) (drop 8 r);
                    rest = dropWhile (\<lambda>c. \<not> isQuote c) (drop 8 r)
                in if body \<noteq> [] \<and> rest \<noteq> []
                   then Some (str ''jvxBase_'' @ body, length body + 13)
                   else None)
             else None)
      else None)"

text \<open>
  \<open>html.matchAll(...)\<close>, mapped to the captured ids: the scan moves on one code unit
  after a failed attempt and to the end of the match after a successful one (\<open>skip\<close>
  counts the code units still covered by the last match).
\<close>

fun matchAllMarkers :: "nat \<Rightarrow> jsstring \<Rightarrow> jsstring list" where
  "matchAllMarkers skip [] = []"
| "matchAllMarkers skip (c # cs) =
     (if skip > 0 then matchAllMarkers (skip - 1) cs
      else (case matchMarkerAt (c # cs) of
              Some (m, len) \<Rightarrow> m # matchAllMarkers (len - 1) cs
            | None \<Rightarrow> matchAllMarkers 0 cs))"

text \<open>
  The fallback detection. \<open>content\<close> is \<open>page.content()\<close>, \<open>None\<close> when it throws
  (\<open>jvxFrames\<close> is then kept).
\<close>

definition regexFallback :: "jvxFrame list \<Rightarrow> jsstring option \<Rightarrow> jvxFrame list" where
  "regexFallback jvxFrames content =
     (if length jvxFrames = 0 then
        (case content of
           None \<Rightarrow> jvxFrames
         | Some html \<Rightarrow> map (\<lambda>i. \<lparr>jvxId = i, src = []\<rparr>) (matchAllMarkers 0 html))
      else jvxFrames)"

subsection \<open>Scanning one frame\<close>

text \<open>
  \<open>creativeVariationMap\<close>, a \<open>Map\<close> from marker iframe id to creative variation, as
  the list of its entries in insertion order. \<open>mapSet\<close> is \<open>Map.prototype.set\<close>.
\<close>

type_synonym cvMap = "(jsstring \<times> jsstring) list"

fun mapSet :: "jsstring \<Rightarrow> jsstring \<Rightarrow> cvMap \<Rightarrow> cvMap" where
  "mapSet k v [] = [(k, v)]"
| "mapSet k v (e # es) = (if fst e = k then (k, v) # es else e # mapSet k v es)"

text \<open>\<open>variations.forEach(v => creativeVariationMap.set(v.jvxBaseId, v.creativeVariation))\<close>\<close>

definition buildCreativeVariationMap :: "(jsstring \<times> jsstring) list \<Rightarrow> cvMap" where
  "buildCreativeVariationMap variations = foldl (\<lambda>m (k, v). mapSet k v m) [] variations"

text \<open>\<open>creativeVariationMap.get(k) || ''\<close>\<close>

definition getOrEmpty :: "cvMap \<Rightarrow> jsstring \<Rightarrow> jsstring" where
  "getOrEmpty m k = (case map_of m k of None \<Rightarrow> [] | Some v \<Rightarrow> v)"

text \<open>
  The object the evaluation inside a frame returns: the processed elements of the
  eight id-prefix categories.
\<close>

record frameMatches =
  frm1 :: "element list"
  frm2 :: "element list"
  frm3 :: "element list"
  frm4 :: "element list"
  frm1SL :: "element list"
  frm2SL :: "element list"
  frm3SL :: "element list"
  frm4SL :: "element list"

text \<open>
  What the browser answers for one frame \<open>f\<close> of \<open>page.frames()\<close>:
  \<^item> \<open>frameInfo\<close>: \<open>(f.url(), f.name())\<close>, \<open>None\<close> when reading them throws;
  \<^item> \<open>pageIframes\<close>: the iframes of the main document at the time of the match query,
    \<open>None\<close> when that evaluation throws;
  \<^item> \<open>evalAllMatches\<close>: the result of the element query in the frame, \<open>None\<close> when
    the frame cannot be evaluated (cross-origin);
  \<^item> \<open>evalVariation\<close>: the result of the title query in the frame (priority 4),
    \<open>None\<close> when it throws.
\<close>

record frameInput =
  frameInfo :: "(jsstring \<times> jsstring) option"
  pageIframes :: "iframe list option"
  evalAllMatches :: "frameMatches option"
  evalVariation :: "jsstring option"

text \<open>The loop over the marker iframes that matches a frame to a \<open>jvxBase_\<close> id.\<close>

fun matchJvxBaseLoop :: "jsstring \<Rightarrow> jsstring \<Rightarrow> iframe list \<Rightarrow> jsstring option" where
  "matchJvxBaseLoop frameUrl frameName [] = None"
| "matchJvxBaseLoop frameUrl frameName (ifr # rest) =
     (if frameName \<noteq> [] \<and> (iframeName ifr = frameName \<or> iframeId ifr = frameName)
      then Some (iframeId ifr)
      else if frameUrl \<noteq> [] \<and> iframeSrc ifr \<noteq> [] \<and>
              (iframeSrc ifr = frameUrl \<or> includesStr frameUrl (iframeId ifr)
               \<or> includesStr (iframeSrc ifr) frameUrl)
      then Some (iframeId ifr)
      else matchJvxBaseLoop frameUrl frameName rest)"

definition matchJvxBaseId :: "jsstring \<Rightarrow> jsstring \<Rightarrow> iframe list \<Rightarrow> jsstring option" where
  "matchJvxBaseId frameUrl frameName iframes =
     matchJvxBaseLoop frameUrl frameName
       (filter (\<lambda>f. startsWith (iframeId f) (str ''jvxBase_'')) iframes)"

text \<open>
  The creative variation of a frame, by the four priorities of the source: the map at
  the matched id, the map at the frame name, the first map entry whose id occurs in
  the frame's URL or name (or is the matched id), the title found inside the frame.
\<close>

definition resolveCreativeVariation ::
  "cvMap \<Rightarrow> jsstring \<Rightarrow> jsstring \<Rightarrow> jsstring option \<Rightarrow> jsstring option \<Rightarrow> jsstring" where
  "resolveCreativeVariation creativeVariationMap frameUrl frameName matchedJvxBaseId frameVariation =
     (let cv1 = (case matchedJvxBaseId of
                   None \<Rightarrow> []
                 | Some mid \<Rightarrow> if mid \<noteq> [] then getOrEmpty creativeVariationMap mid else []);
          cv2 = (if cv1 = [] \<and> frameName \<noteq> [] then getOrEmpty creativeVariationMap frameName
                 else cv1);
          cv3 = (if cv2 = [] \<and> frameUrl \<noteq> [] then
                   (case find (\<lambda>(jvxBaseId, variation).
                                 includesStr frameUrl jvxBaseId
                                 \<or> (frameName \<noteq> [] \<and> includesStr frameName jvxBaseId)
                                 \<or> (matchedJvxBaseId = Some jvxBaseId \<and> jvxBaseId \<noteq> []))
                           creativeVariationMap of
                      None \<Rightarrow> cv2
                    | Some (jvxBaseId, variation) \<Rightarrow> variation)
                 else cv2);
          cv4 = (if cv3 = [] then (case frameVariation of None \<Rightarrow> [] | Some v \<Rightarrow> v) else cv3)
      in cv4)"

text \<open>
  The local variables of one iteration when it reaches the test
  \<open>if (isJvxBaseFrame || hasElements)\<close>. \<open>sfMatches\<close> holds the eight variables
  \<open>matches\<close> \<dots> \<open>matchesSL4\<close>, which are all \<open>null\<close> (\<open>None\<close>) or all arrays.
\<close>

record scannedFrame =
  sfUrl :: jsstring
  sfName :: jsstring
  sfIsJvxBase :: bool
  sfCreativeVariation :: jsstring
  sfMatches :: "frameMatches option"

text \<open>One iteration up to that test; \<open>None\<close> is the \<open>continue\<close> after a failed read.\<close>

definition evaluateFrame :: "cvMap \<Rightarrow> frameInput \<Rightarrow> scannedFrame option" where
  "evaluateFrame creativeVariationMap f =
     (case frameInfo f of
        None \<Rightarrow> None
      | Some (frameUrl, frameName) \<Rightarrow>
          let matchedJvxBaseId =
                (case pageIframes f of
                   None \<Rightarrow> None
                 | Some iframes \<Rightarrow> matchJvxBaseId frameUrl frameName iframes);
              creativeVariation =
                (case evalAllMatches f of
                   None \<Rightarrow> []
                 | Some allMatches \<Rightarrow>
                     resolveCreativeVariation creativeVariationMap frameUrl frameName
                       matchedJvxBaseId (evalVariation f))
          in Some \<lparr>sfUrl = frameUrl, sfName = frameName,
                   sfIsJvxBase = ((frameName \<noteq> [] \<and> startsWith frameName (str ''jvxBase_''))
                                  \<or> matchedJvxBaseId \<noteq> None),
                   sfCreativeVariation = creativeVariation,
                   sfMatches = evalAllMatches f\<rparr>)"

text \<open>\<open>matches || []\<close> and its seven siblings.\<close>

definition noMatches :: frameMatches where
  "noMatches = \<lparr>frm1 = [], frm2 = [], frm3 = [], frm4 = [],
                frm1SL = [], frm2SL = [], frm3SL = [], frm4SL = []\<rparr>"

definition listsOf :: "scannedFrame \<Rightarrow> frameMatches" where
  "listsOf s = (case sfMatches s of None \<Rightarrow> noMatches | Some am \<Rightarrow> am)"

definition frameHasElements :: "scannedFrame \<Rightarrow> bool" where
  "frameHasElements s \<longleftrightarrow>
     (case sfMatches s of
        None \<Rightarrow> False
      | Some am \<Rightarrow> length (frm1 am) > 0 \<or> length (frm2 am) > 0 \<or> length (frm3 am) > 0
                   \<or> length (frm4 am) > 0 \<or> length (frm1SL am) > 0 \<or> length (frm2SL am) > 0
                   \<or> length (frm3SL am) > 0 \<or> length (frm4SL am) > 0)"

subsection \<open>Merging the frames into \<open>hlMatches\<close>\<close>

record hlMatch =
  frameUrl :: jsstring
  frameName :: jsstring
  creativeVariation :: jsstring
  matches :: "element list"
  matches2 :: "element list"
  matches3 :: "element list"
  matches4 :: "element list"
  matchesSL1 :: "element list"
  matchesSL2 :: "element list"
  matchesSL3 :: "element list"
  matchesSL4 :: "element list"

text \<open>The placeholder label \<open>'N/A'\<close>.\<close>

definition NA :: jsstring where
  "NA = str ''N/A''"

text \<open>\<open>xs.findIndex(p)\<close>: the first index whose element satisfies \<open>p\<close>, or \<open>-1\<close>.\<close>

fun findIndex :: "('a \<Rightarrow> bool) \<Rightarrow> 'a list \<Rightarrow> int" where
  "findIndex p [] = -1"
| "findIndex p (x # xs) =
     (if p x then 0 else (let i = findIndex p xs in if i < 0 then -1 else i + 1))"

text \<open>
  \<open>existing.matches = [...(existing.matches || []), ...(matches || [])]\<close> and its
  seven siblings: the lists of \<open>am\<close> are appended to those of the entry.
\<close>

definition mergeLists :: "hlMatch \<Rightarrow> frameMatches \<Rightarrow> hlMatch" where
  "mergeLists existing am =
     existing\<lparr>matches := matches existing @ frm1 am,
               matches2 := matches2 existing @ frm2 am,
               matches3 := matches3 existing @ frm3 am,
               matches4 := matches4 existing @ frm4 am,
               matchesSL1 := matchesSL1 existing @ frm1SL am,
               matchesSL2 := matchesSL2 existing @ frm2SL am,
               matchesSL3 := matchesSL3 existing @ frm3SL am,
               matchesSL4 := matchesSL4 existing @ frm4SL am\<rparr>"

text \<open>The body of \<open>if (isJvxBaseFrame || hasElements)\<close>: merge into the entry of the
  same creative variation, or push a new entry.\<close>

definition addFrame :: "hlMatch list \<Rightarrow> scannedFrame \<Rightarrow> hlMatch list" where
  "addFrame hlMatches s =
     (let cv = sfCreativeVariation s;
          labelled = (cv \<noteq> [] \<and> cv \<noteq> NA \<and> cv \<noteq> []);
          existingIndex = (if labelled then findIndex (\<lambda>m. creativeVariation m = cv) hlMatches
                           else -1)
      in if existingIndex \<ge> 0 \<and> labelled
         then hlMatches[nat existingIndex := mergeLists (hlMatches ! nat existingIndex) (listsOf s)]
         else hlMatches @
                [\<lparr>frameUrl = sfUrl s, frameName = sfName s,
                  creativeVariation = (if cv = [] then NA else cv),
                  matches = frm1 (listsOf s), matches2 = frm2 (listsOf s),
                  matches3 = frm3 (listsOf s), matches4 = frm4 (listsOf s),
                  matchesSL1 = frm1SL (listsOf s), matchesSL2 = frm2SL (listsOf s),
                  matchesSL3 = frm3SL (listsOf s), matchesSL4 = frm4SL (listsOf s)\<rparr>])"

text \<open>One iteration of \<open>for (const f of frames)\<close>, and the whole loop.\<close>

definition scanFrame :: "cvMap \<Rightarrow> hlMatch list \<Rightarrow> frameInput \<Rightarrow> hlMatch list" where
  "scanFrame creativeVariationMap hlMatches f =
     (case evaluateFrame creativeVariationMap f of
        None \<Rightarrow> hlMatches
      | Some s \<Rightarrow> if sfIsJvxBase s \<or> frameHasElements s then addFrame hlMatches s
                  else hlMatches)"

definition scanFrames :: "cvMap \<Rightarrow> frameInput list \<Rightarrow> hlMatch list" where
  "scanFrames creativeVariationMap frames = foldl (scanFrame creativeVariationMap) [] frames"

subsection \<open>Filtering \<open>hlMatches\<close> and building the response\<close>

text \<open>\<open>hasElements\<close> of an entry of \<open>hlMatches\<close>.\<close>

definition hasElements :: "hlMatch \<Rightarrow> bool" where
  "hasElements m \<longleftrightarrow>
     length (matches m) > 0 \<or> length (matches2 m) > 0 \<or> length (matches3 m) > 0
     \<or> length (matches4 m) > 0 \<or> length (matchesSL1 m) > 0 \<or> length (matchesSL2 m) > 0
     \<or> length (matchesSL3 m) > 0 \<or> length (matchesSL4 m) > 0"

definition isValidCreativeVar :: "jsstring \<Rightarrow> bool" where
  "isValidCreativeVar creativeVar \<longleftrightarrow>
     creativeVar \<noteq> [] \<and> creativeVar \<noteq> NA \<and> creativeVar \<noteq> [] \<and> trim creativeVar \<noteq> []"

text \<open>The merge of the filter: the lists of \<open>m\<close> are appended to those of \<open>existing\<close>.\<close>

definition mergeMatch :: "hlMatch \<Rightarrow> hlMatch \<Rightarrow> hlMatch" where
  "mergeMatch existing m =
     existing\<lparr>matches := matches existing @ matches m,
               matches2 := matches2 existing @ matches2 m,
               matches3 := matches3 existing @ matches3 m,
               matches4 := matches4 existing @ matches4 m,
               matchesSL1 := matchesSL1 existing @ matchesSL1 m,
               matchesSL2 := matchesSL2 existing @ matchesSL2 m,
               matchesSL3 := matchesSL3 existing @ matchesSL3 m,
               matchesSL4 := matchesSL4 existing @ matchesSL4 m\<rparr>"

text \<open>
  One call of the \<open>forEach\<close> callback that builds \<open>validHlMatches\<close>; the state is
  \<open>validHlMatches\<close> and the set \<open>seenCreativeVariations\<close>.
\<close>

definition filterStep :: "hlMatch list \<times> jsstring set \<Rightarrow> hlMatch \<Rightarrow> hlMatch list \<times> jsstring set" where
  "filterStep st m =
     (let valid = fst st; seen = snd st;
          creativeVar = creativeVariation m
      in if isValidCreativeVar creativeVar then
           (if creativeVar \<notin> seen then (valid @ [m], insert creativeVar seen)
            else
              (let existingIndex = findIndex (\<lambda>x. creativeVariation x = creativeVar) valid
               in if existingIndex \<ge> 0
                  then (valid[nat existingIndex := mergeMatch (valid ! nat existingIndex) m], seen)
                  else (valid, seen)))
         else if hasElements m then (valid @ [m], seen)
         else (valid, seen))"

definition validHlMatches :: "hlMatch list \<Rightarrow> hlMatch list" where
  "validHlMatches hlMatches = fst (foldl filterStep ([], {}) hlMatches)"

text \<open>The entries of the response lists \<open>brokenModels\<close> and \<open>allModelStatuses\<close>.\<close>

record brokenEntry =
  bCreativeVariation :: jsstring
  bElementId :: jsstring
  bElementType :: jsstring
  bBrokenModels :: "modelStatus list"
  bOuterHTML :: jsstring

record statusEntry =
  sCreativeVariation :: jsstring
  sElementId :: jsstring
  sElementType :: jsstring
  sModelStatuses :: "modelStatus list"
  sOuterHTML :: jsstring

definition allElementArrays :: "hlMatch \<Rightarrow> element list" where
  "allElementArrays m =
     matches m @ matches2 m @ matches3 m @ matches4 m
     @ matchesSL1 m @ matchesSL2 m @ matchesSL3 m @ matchesSL4 m"

text \<open>\<open>element.id && element.id.includes('_HL_') ? 'HL' : 'SL'\<close>\<close>

definition elementTypeOf :: "element \<Rightarrow> jsstring" where
  "elementTypeOf e =
     (if id' e \<noteq> [] \<and> includesStr (id' e) (str ''_HL_'') then str ''HL'' else str ''SL'')"

definition collectAllModelStatuses :: "hlMatch list \<Rightarrow> statusEntry list" where
  "collectAllModelStatuses valid =
     concat (map (\<lambda>m. concat (map (\<lambda>e.
        (case allModelStatuses e of
           None \<Rightarrow> []
         | Some sts \<Rightarrow>
             if length sts > 0 then
               [\<lparr>sCreativeVariation = (if creativeVariation m = [] then NA else creativeVariation m),
                 sElementId = (if id' e = [] then str ''Unknown'' else id' e),
                 sElementType = elementTypeOf e,
                 sModelStatuses = sts,
                 sOuterHTML = outerHTML e\<rparr>]
             else [])) (allElementArrays m))) valid)"

definition collectBrokenModels :: "hlMatch list \<Rightarrow> brokenEntry list" where
  "collectBrokenModels valid =
     concat (map (\<lambda>m. concat (map (\<lambda>e.
        (case brokenModels e of
           None \<Rightarrow> []
         | Some bms \<Rightarrow>
             if length bms > 0 then
               [\<lparr>bCreativeVariation = (if creativeVariation m = [] then NA else creativeVariation m),
                 bElementId = (if id' e = [] then str ''Unknown'' else id' e),
                 bElementType = elementTypeOf e,
                 bBrokenModels = bms,
                 bOuterHTML = outerHTML e\<rparr>]
             else [])) (allElementArrays m))) valid)"

text \<open>The success response of \<open>/api/count\<close>.\<close>

record response =
  r_ok :: bool
  r_count :: nat
  r_frames :: "jvxFrame list"
  r_hlMatches :: "hlMatch list"
  r_brokenModels :: "brokenEntry list"
  r_allModelStatuses :: "statusEntry list"

definition buildResponse :: "jvxFrame list \<Rightarrow> hlMatch list \<Rightarrow> response" where
  "buildResponse jvxFrames hlMatches =
     (let valid = validHlMatches hlMatches;
          broken = collectBrokenModels valid;
          statuses = collectAllModelStatuses valid
      in \<lparr>r_ok = True,
          r_count = length jvxFrames,
          r_frames = jvxFrames,
          r_hlMatches = valid,
          r_brokenModels = broken,
          r_allModelStatuses = statuses\<rparr>)"

text \<open>
  How a statement completes: it returns a value from the handler, or control goes on
  to the next statement. \<open>thenStmt a b\<close> is the sequence \<open>a; b\<close>.
\<close>

datatype 'a completion = Return 'a | Next

definition thenStmt :: "'a completion \<Rightarrow> 'a completion \<Rightarrow> 'a completion" where
  "thenStmt a b = (case a of Return r \<Rightarrow> Return r | Next \<Rightarrow> b)"

text \<open>
  The end of the handler, from the filter of \<open>hlMatches\<close> on: the response is built
  and \<open>return res.json(response)\<close> is executed; the statements that follow in the source
  (the second element collection, \<open>associateElementsForType\<close> and the assembly of
  \<open>creatives\<close>) are the parameter \<open>rest\<close>, whatever they would compute.
\<close>

definition respond :: "jvxFrame list \<Rightarrow> hlMatch list \<Rightarrow> response completion \<Rightarrow> response completion" where
  "respond jvxFrames hlMatches rest =
     thenStmt (Return (buildResponse jvxFrames hlMatches)) rest"

text \<open>
  The detection part of \<open>/api/count\<close> after navigation, from what the browser
  answers: the iframes of the main document, the entries for \<open>creativeVariationMap\<close>
  (\<open>None\<close> when that evaluation throws), the frames, and the page content.
\<close>

definition apiCount ::
  "iframe list option \<Rightarrow> (jsstring \<times> jsstring) list option \<Rightarrow> frameInput list \<Rightarrow> jsstring option
     \<Rightarrow> response completion \<Rightarrow> response completion" where
  "apiCount doc variations frames content rest =
     (let jvxFrames0 = detectJvxFrames doc;
          creativeVariationMap =
            (case variations of None \<Rightarrow> [] | Some vs \<Rightarrow> buildCreativeVariationMap vs);
          hlMatches = scanFrames creativeVariationMap frames;
          jvxFrames = regexFallback jvxFrames0 content
      in respond jvxFrames hlMatches rest)"

subsection \<open>Notions used to state the properties of the aggregation\<close>

text \<open>The frames whose iteration reaches the test, and those that pass it.\<close>

definition scannedFrames :: "cvMap \<Rightarrow> frameInput list \<Rightarrow> scannedFrame list" where
  "scannedFrames creativeVariationMap frames =
     List.map_filter (evaluateFrame creativeVariationMap) frames"

definition addedFrames :: "cvMap \<Rightarrow> frameInput list \<Rightarrow> scannedFrame list" where
  "addedFrames creativeVariationMap frames =
     filter (\<lambda>s. sfIsJvxBase s \<or> frameHasElements s) (scannedFrames creativeVariationMap frames)"

text \<open>The \<open>hlMatches\<close> of the response, from the frames.\<close>

definition finalHlMatches :: "cvMap \<Rightarrow> frameInput list \<Rightarrow> hlMatch list" where
  "finalHlMatches creativeVariationMap frames =
     validHlMatches (scanFrames creativeVariationMap frames)"

text \<open>
  The elements of a frame result, and of an entry of \<open>hlMatches\<close>, each paired with
  the number of its category (1 to 4 for \<open>frm1_HL_\<close> \<dots> \<open>frm4_HL_\<close>, 5 to 8 for
  \<open>frm1_SL_\<close> \<dots> \<open>frm4_SL_\<close>).
\<close>

definition taggedFrame :: "frameMatches \<Rightarrow> (nat \<times> element) list" where
  "taggedFrame am =
     map (Pair 1) (frm1 am) @ map (Pair 2) (frm2 am) @ map (Pair 3) (frm3 am)
     @ map (Pair 4) (frm4 am) @ map (Pair 5) (frm1SL am) @ map (Pair 6) (frm2SL am)
     @ map (Pair 7) (frm3SL am) @ map (Pair 8) (frm4SL am)"

definition taggedMatches :: "hlMatch \<Rightarrow> (nat \<times> element) list" where
  "taggedMatches m =
     map (Pair 1) (matches m) @ map (Pair 2) (matches2 m) @ map (Pair 3) (matches3 m)
     @ map (Pair 4) (matches4 m) @ map (Pair 5) (matchesSL1 m) @ map (Pair 6) (matchesSL2 m)
     @ map (Pair 7) (matchesSL3 m) @ map (Pair 8) (matchesSL4 m)"

text \<open>
  What the frame order may not change: the label of each record with, per category,
  the multiset of its elements; and of the records, their multiset.
\<close>

definition recordSummary :: "hlMatch \<Rightarrow> jsstring \<times> (nat \<times> element) multiset" where
  "recordSummary m = (creativeVariation m, mset (taggedMatches m))"

definition finalSummary :: "hlMatch list \<Rightarrow> (jsstring \<times> (nat \<times> element) multiset) multiset" where
  "finalSummary hl = image_mset recordSummary (mset hl)"

text \<open>
  The one record for a label \<open>L\<close> and the frames \<open>grp\<close> that carry it, in scan order:
  URL and name of the first frame, and per category the concatenation of the lists.
\<close>

definition mergedRecord :: "jsstring \<Rightarrow> scannedFrame list \<Rightarrow> hlMatch" where
  "mergedRecord L grp =
     \<lparr>frameUrl = sfUrl (hd grp), frameName = sfName (hd grp), creativeVariation = L,
      matches = concat (map (\<lambda>s. frm1 (listsOf s)) grp),
      matches2 = concat (map (\<lambda>s. frm2 (listsOf s)) grp),
      matches3 = concat (map (\<lambda>s. frm3 (listsOf s)) grp),
      matches4 = concat (map (\<lambda>s. frm4 (listsOf s)) grp),
      matchesSL1 = concat (map (\<lambda>s. frm1SL (listsOf s)) grp),
      matchesSL2 = concat (map (\<lambda>s. frm2SL (listsOf s)) grp),
      matchesSL3 = concat (map (\<lambda>s. frm3SL (listsOf s)) grp),
      matchesSL4 = concat (map (\<lambda>s. frm4SL (listsOf s)) grp)\<rparr>"

text \<open>The entry pushed for a frame, and the update of the first entry that satisfies
  \<open>p\<close>: the two branches of \<open>addFrame\<close>.\<close>

definition newEntry :: "scannedFrame \<Rightarrow> hlMatch" where
  "newEntry s =
     \<lparr>frameUrl = sfUrl s, frameName = sfName s,
      creativeVariation = (if sfCreativeVariation s = [] then NA else sfCreativeVariation s),
      matches = frm1 (listsOf s), matches2 = frm2 (listsOf s),
      matches3 = frm3 (listsOf s), matches4 = frm4 (listsOf s),
      matchesSL1 = frm1SL (listsOf s), matchesSL2 = frm2SL (listsOf s),
      matchesSL3 = frm3SL (listsOf s), matchesSL4 = frm4SL (listsOf s)\<rparr>"

fun updFirst :: "('a \<Rightarrow> bool) \<Rightarrow> ('a \<Rightarrow> 'a) \<Rightarrow> 'a list \<Rightarrow> 'a list" where
  "updFirst p g [] = []"
| "updFirst p g (x # xs) = (if p x then g x # xs else x # updFirst p g xs)"

text \<open>A label that is neither empty nor the placeholder: the test of \<open>addFrame\<close>.\<close>

definition labelled :: "jsstring \<Rightarrow> bool" where
  "labelled cv \<longleftrightarrow> cv \<noteq> [] \<and> cv \<noteq> NA"

text \<open>The records the filter keeps.\<close>

definition keep :: "hlMatch \<Rightarrow> bool" where
  "keep m \<longleftrightarrow> isValidCreativeVar (creativeVariation m) \<or> hasElements m"

text \<open>Every label other than the placeholder labels at most one entry.\<close>

definition labelsDistinct :: "hlMatch list \<Rightarrow> bool" where
  "labelsDistinct hl \<longleftrightarrow> distinct (filter (\<lambda>l. l \<noteq> NA) (map creativeVariation hl))"

text \<open>
  Example inputs: an element with a one-letter id and no model found, and a frame
  that is read and evaluated without error, holds the given \<open>frm1_HL_\<close> elements and
  finds the given title inside itself (priority 4).
\<close>

definition exElement :: "nat \<Rightarrow> element" where
  "exElement c = \<lparr>id' = [c], outerHTML = [], brokenModels = None, allModelStatuses = None\<rparr>"

definition exFrame :: "jsstring \<Rightarrow> jsstring \<Rightarrow> element list \<Rightarrow> frameInput" where
  "exFrame url title els =
     \<lparr>frameInfo = Some (url, []), pageIframes = Some [],
      evalAllMatches = Some (noMatches\<lparr>frm1 := els\<rparr>), evalVariation = Some title\<rparr>"

text \<open>
  The number of positions of \<open>s\<close> at which the text \<open>p\<close> occurs.
\<close>

fun countOccurrences :: "jsstring \<Rightarrow> jsstring \<Rightarrow> nat" where
  "countOccurrences [] p = (if p = [] then 1 else 0)"
| "countOccurrences (c # cs) p =
     (if startsWith (c # cs) p then 1 else 0) + countOccurrences cs p"

text \<open>
  The opening of a marker id attribute, \<open>id="jvxBase_\<close> or \<open>id='jvxBase_\<close> (\<open>q\<close> is the
  quote), and the strings in which neither occurs.
\<close>

definition markerOpening :: "nat \<Rightarrow> jsstring" where
  "markerOpening q = str ''id='' @ [q] @ str ''jvxBase_''"

definition noMarkerOpening :: "jsstring \<Rightarrow> bool" where
  "noMarkerOpening s \<longleftrightarrow>
     \<not> includesStr s (markerOpening 34) \<and> \<not> includesStr s (markerOpening 39)"

text \<open>
  The page sources \<open><iframe id="jvxBase_xyz">\<close> and
  \<open><a id="jvxBase_xyz"><b id="jvxBase_abc">\<close>.
\<close>

definition exHtml :: jsstring where
  "exHtml = str ''<iframe '' @ (str ''id='' @ [34] @ str ''jvxBase_xyz'' @ [34]) @ str ''>''"

definition exHtml2 :: jsstring where
  "exHtml2 = str ''<a id='' @ [34] @ str ''jvxBase_xyz'' @ [34]
             @ str ''><b id='' @ [34] @ str ''jvxBase_abc'' @ [34] @ str ''>''"

section \<open>The creative-to-element resolver\<close>

text \<open>
  \<open>associateElementsForType\<close> is defined after the handler's first
  \<open>return res.json(response)\<close> and is never called; it is modelled as the function it is.

  An element with its frame: \<open>{ ...match, frameUrl, frameName, jvxBaseId }\<close>.
\<close>

record elementWithFrame = element +
  efFrameUrl :: jsstring
  efFrameName :: jsstring
  efJvxBaseId :: jsstring

text \<open>An entry \<open>{ frm1, frm2, frm3, frm4 }\<close> of \<open>elementsByJvxBaseId\<close>.\<close>

record jvxElements =
  frm1E :: "elementWithFrame list"
  frm2E :: "elementWithFrame list"
  frm3E :: "elementWithFrame list"
  frm4E :: "elementWithFrame list"

text \<open>An entry of \<open>previewVariationTitles\<close>; the resolver reads its \<open>text\<close>.\<close>

record previewTitle =
  ptText :: jsstring
  ptOriginalText :: jsstring
  ptContainerIndex :: nat
  ptFrameUrl :: jsstring

text \<open>
  A JavaScript \<open>Map\<close> with string keys, as the list of its entries; \<open>m.get(k)\<close> is
  \<open>map_of m k\<close>, with \<open>None\<close> for \<open>undefined\<close>.
\<close>

type_synonym 'v jsmap = "(jsstring \<times> 'v) list"

text \<open>The decimal digits of a number, for the template strings that build the keys.\<close>

fun digitsOf :: "nat \<Rightarrow> jsstring" where
  "digitsOf n = (if n < 10 then [48 + n] else digitsOf (n div 10) @ [48 + n mod 10])"

definition numToString :: "int \<Rightarrow> jsstring" where
  "numToString i = (if i < 0 then 45 # digitsOf (nat (- i)) else digitsOf (nat i))"

text \<open>\<open>`${containerIndex}`\<close>, where \<open>containerIndex\<close> may be \<open>undefined\<close> (\<open>None\<close>).\<close>

definition indexToString :: "int option \<Rightarrow> jsstring" where
  "indexToString ci = (case ci of None \<Rightarrow> str ''undefined'' | Some i \<Rightarrow> numToString i)"

text \<open>\<open>titleText.match(/\d+/)\<close>: the first maximal run of decimal digits.\<close>

definition isDigit :: "nat \<Rightarrow> bool" where
  "isDigit c \<longleftrightarrow> 48 \<le> c \<and> c \<le> 57"

definition firstNumber :: "jsstring \<Rightarrow> jsstring option" where
  "firstNumber s =
     (let r = dropWhile (\<lambda>c. \<not> isDigit c) s
      in if r = [] then None else Some (takeWhile isDigit r))"

text \<open>The variables \<open>creativeElements\<close> and \<open>usedElementSet\<close> the strategies update.\<close>

record resolverState =
  creativeElements :: "elementWithFrame list"
  usedElementSet :: "jsstring set"

text \<open>\<open>creativeElements = [e]; usedElementSet.add(e.id)\<close>\<close>

definition assign :: "elementWithFrame \<Rightarrow> resolverState \<Rightarrow> resolverState" where
  "assign e st = st\<lparr>creativeElements := [e], usedElementSet := insert (id' e) (usedElementSet st)\<rparr>"

text \<open>Strategy 1: the first unused element of the container's marker iframe.\<close>

definition strategy1 ::
  "jsstring \<Rightarrow> int option \<Rightarrow> jsstring \<Rightarrow> jvxElements jsmap \<Rightarrow> jsstring jsmap
     \<Rightarrow> resolverState \<Rightarrow> resolverState" where
  "strategy1 titleText containerIndex elementType elementsByJvxBaseId titleFrameMap st =
     (let containerKey = titleText @ str ''__container_'' @ indexToString containerIndex
      in case map_of titleFrameMap (str ''jvxBase_'' @ containerKey) of
           None \<Rightarrow> st
         | Some jvxBaseId \<Rightarrow>
             if jvxBaseId = [] then st
             else (case map_of elementsByJvxBaseId jvxBaseId of
                     None \<Rightarrow> st
                   | Some frameElements \<Rightarrow>
                       let frameElementsForType =
                             (if elementType = str ''frm1'' then frm1E frameElements
                              else if elementType = str ''frm2'' then frm2E frameElements
                              else if elementType = str ''frm3'' then frm3E frameElements
                              else if elementType = str ''frm4'' then frm4E frameElements
                              else [])
                       in (case find (\<lambda>frameElement. id' frameElement \<notin> usedElementSet st)
                                  frameElementsForType of
                             None \<Rightarrow> st
                           | Some frameElement \<Rightarrow> assign frameElement st)))"

text \<open>Strategy 2: the element at position \<open>containerIndex\<close>, if unused.\<close>

definition strategy2 ::
  "int option \<Rightarrow> elementWithFrame list \<Rightarrow> resolverState \<Rightarrow> resolverState" where
  "strategy2 containerIndex allElements st =
     (case containerIndex of
        None \<Rightarrow> st
      | Some ci \<Rightarrow>
          if length (creativeElements st) = 0 \<and> length allElements > 0 \<and> ci \<ge> 0 then
            (if ci < int (length allElements) then
               (let elementAtIndex = allElements ! nat ci
                in if id' elementAtIndex \<notin> usedElementSet st then assign elementAtIndex st
                   else st)
             else st)
          else st)"

text \<open>The loop of strategy 3 over the associated ids.\<close>

fun firstAssociated ::
  "jsstring list \<Rightarrow> elementWithFrame list \<Rightarrow> jsstring set \<Rightarrow> elementWithFrame option" where
  "firstAssociated [] allElements used = None"
| "firstAssociated (elementId # ids) allElements used =
     (case find (\<lambda>el. id' el = elementId \<and> id' el \<notin> used) allElements of
        Some fullElement \<Rightarrow> Some fullElement
      | None \<Rightarrow> firstAssociated ids allElements used)"

text \<open>Strategy 3: the first unused candidate of the DOM association.\<close>

definition strategy3 ::
  "jsstring \<Rightarrow> nat \<Rightarrow> int option \<Rightarrow> elementWithFrame list \<Rightarrow> jsstring list jsmap
     \<Rightarrow> resolverState \<Rightarrow> resolverState" where
  "strategy3 titleText idx containerIndex allElements creativeAssociationsMap st =
     (if length (creativeElements st) = 0 then
        (let associationKey =
               titleText @ str ''__container_''
               @ (case containerIndex of None \<Rightarrow> numToString (int idx) | Some ci \<Rightarrow> numToString ci)
         in case map_of creativeAssociationsMap associationKey of
              None \<Rightarrow> st
            | Some associatedIds \<Rightarrow>
                (case firstAssociated associatedIds allElements (usedElementSet st) of
                   None \<Rightarrow> st
                 | Some fullElement \<Rightarrow> assign fullElement st))
      else st)"

text \<open>Strategy 4: an unused element whose id contains the number of the title.\<close>

definition strategy4 ::
  "jsstring \<Rightarrow> jsstring \<Rightarrow> elementWithFrame list \<Rightarrow> resolverState \<Rightarrow> resolverState" where
  "strategy4 titleText idPrefix unusedElements st =
     (if length (creativeElements st) = 0 then
        (case firstNumber titleText of
           None \<Rightarrow> st
         | Some numStr \<Rightarrow>
             let matchingElements =
                   filter (\<lambda>el. id' el \<noteq> [] \<and> includesStr (id' el) numStr) unusedElements
             in if length matchingElements > 0 then
                  (let exactMatch =
                         find (\<lambda>el. includesStr (id' el) (45 # numStr)
                                   \<or> includesStr (id' el) (95 # numStr)
                                   \<or> includesStr (id' el) (numStr @ [45])
                                   \<or> includesStr (id' el) (numStr @ [95])
                                   \<or> includesStr (id' el) (120 # numStr)
                                   \<or> includesStr (id' el) (numStr @ [120])
                                   \<or> endsWith (id' el) numStr
                                   \<or> includesStr (id' el) (idPrefix @ numStr))
                           matchingElements;
                       selectedElement =
                         (case exactMatch of None \<Rightarrow> hd matchingElements | Some e \<Rightarrow> e)
                   in assign selectedElement st)
                else st)
      else st)"

text \<open>Strategy 5: an unused element of the title's frame.\<close>

definition strategy5 ::
  "previewTitle list \<Rightarrow> jsstring \<Rightarrow> jsstring \<Rightarrow> jsstring jsmap \<Rightarrow> elementWithFrame list
     \<Rightarrow> resolverState \<Rightarrow> resolverState" where
  "strategy5 previewVariationTitles titleText titleFrame titleFrameMap unusedElements st =
     (if length (creativeElements st) = 0 \<and> titleFrame \<noteq> [] then
        (let sameFrameElements = filter (\<lambda>el. efFrameUrl el = titleFrame) unusedElements
         in if length sameFrameElements > 0 then
              (let frameTitleIndex =
                     findIndex (\<lambda>t. ptText t = titleText)
                       (filter (\<lambda>t. (case map_of titleFrameMap (ptText t) of
                                        None \<Rightarrow> [] | Some u \<Rightarrow> u) = titleFrame)
                          previewVariationTitles)
               in if frameTitleIndex \<ge> 0 \<and> int (length sameFrameElements) > frameTitleIndex
                  then assign (sameFrameElements ! nat frameTitleIndex) st
                  else assign (sameFrameElements ! 0) st)
            else st)
      else st)"

text \<open>Strategy 6: \<open>unusedElements[idx % unusedElements.length]\<close>.\<close>

definition strategy6 :: "nat \<Rightarrow> elementWithFrame list \<Rightarrow> resolverState \<Rightarrow> resolverState" where
  "strategy6 idx unusedElements st =
     (if length (creativeElements st) = 0 then
        (if length unusedElements > 0 then
           (let elementIndex = idx mod length unusedElements;
                selectedElement = unusedElements ! elementIndex
            in assign selectedElement st)
         else st)
      else st)"

text \<open>The final \<open>forEach\<close> that removes elements without id and repeated ids.\<close>

fun dedupById :: "elementWithFrame list \<Rightarrow> jsstring set \<Rightarrow> elementWithFrame list" where
  "dedupById [] seenElementIds = []"
| "dedupById (el # els) seenElementIds =
     (if id' el \<noteq> [] \<and> id' el \<notin> seenElementIds
      then el # dedupById els (insert (id' el) seenElementIds)
      else dedupById els seenElementIds)"

text \<open>The arguments of one call, \<open>usedElementSet\<close> apart. \<open>idx\<close> is an array index.\<close>

record resolverCall =
  titleText :: jsstring
  titleFrame :: jsstring
  idx :: nat
  containerIndex :: "int option"
  elementType :: jsstring
  allElements :: "elementWithFrame list"
  creativeAssociationsMap :: "jsstring list jsmap"
  idPrefix :: jsstring
  elementsByJvxBaseId :: "jvxElements jsmap"
  titleFrameMap :: "jsstring jsmap"

text \<open>\<open>unusedElements\<close>, computed once at the start of the call.\<close>

definition unusedElementsOf :: "resolverCall \<Rightarrow> jsstring set \<Rightarrow> elementWithFrame list" where
  "unusedElementsOf c used = filter (\<lambda>el. id' el \<notin> used) (allElements c)"

text \<open>The state after strategies 1 to 5.\<close>

definition strategies1to5 :: "previewTitle list \<Rightarrow> resolverCall \<Rightarrow> jsstring set \<Rightarrow> resolverState" where
  "strategies1to5 previewVariationTitles c used =
     (let unusedElements = unusedElementsOf c used;
          st0 = \<lparr>creativeElements = [], usedElementSet = used\<rparr>;
          st1 = strategy1 (titleText c) (containerIndex c) (elementType c)
                  (elementsByJvxBaseId c) (titleFrameMap c) st0;
          st2 = strategy2 (containerIndex c) (allElements c) st1;
          st3 = strategy3 (titleText c) (idx c) (containerIndex c) (allElements c)
                  (creativeAssociationsMap c) st2;
          st4 = strategy4 (titleText c) (idPrefix c) unusedElements st3;
          st5 = strategy5 previewVariationTitles (titleText c) (titleFrame c)
                  (titleFrameMap c) unusedElements st4
      in st5)"

text \<open>
  \<open>associateElementsForType\<close>: the elements returned and the updated
  \<open>usedElementSet\<close>. \<open>previewVariationTitles\<close> is the variable of the enclosing handler.
\<close>

definition associateElementsForType ::
  "previewTitle list \<Rightarrow> resolverCall \<Rightarrow> jsstring set \<Rightarrow> elementWithFrame list \<times> jsstring set" where
  "associateElementsForType previewVariationTitles c used =
     (let st6 = strategy6 (idx c) (unusedElementsOf c used)
                  (strategies1to5 previewVariationTitles c used)
      in (dedupById (creativeElements st6) {}, usedElementSet st6))"

text \<open>A sequence of calls for one category, sharing the set of used ids.\<close>

fun resolveAll ::
  "previewTitle list \<Rightarrow> resolverCall list \<Rightarrow> jsstring set \<Rightarrow> elementWithFrame list list" where
  "resolveAll previewVariationTitles [] used = []"
| "resolveAll previewVariationTitles (c # cs) used =
     (let (r, used') = associateElementsForType previewVariationTitles c used
      in r # resolveAll previewVariationTitles cs used')"

declare digitsOf.simps [simp del]

text \<open>
  What every strategy maintains, for a call started with the set \<open>used\<close>: either nothing
  is assigned yet and the set is unchanged, or one element is assigned, its id was not
  in \<open>used\<close>, and the set is \<open>used\<close> with that id added. \<open>Q\<close> is a property of the
  elements a strategy can choose from.
\<close>

definition assignedFrom :: "(elementWithFrame \<Rightarrow> bool) \<Rightarrow> jsstring set \<Rightarrow> resolverState \<Rightarrow> bool" where
  "assignedFrom Q used st \<longleftrightarrow>
     (creativeElements st = [] \<and> usedElementSet st = used) \<or>
     (\<exists>e. creativeElements st = [e] \<and> Q e \<and> id' e \<notin> used
          \<and> usedElementSet st = insert (id' e) used)"

text \<open>The elements of the lists of \<open>elementsByJvxBaseId\<close>.\<close>

definition jvxElementsOf :: "jvxElements jsmap \<Rightarrow> elementWithFrame set" where
  "jvxElementsOf m = (\<Union>(k, fe) \<in> set m. set (frm1E fe @ frm2E fe @ frm3E fe @ frm4E fe))"

text \<open>Example inputs: an element with a one-letter id, and a call for the category
  \<open>frm1\<close> with the title \<open>"T"\<close>, no title frame and empty maps.\<close>

definition exEl :: "nat \<Rightarrow> elementWithFrame" where
  "exEl c = \<lparr>id' = [c], outerHTML = [], brokenModels = None, allModelStatuses = None,
             efFrameUrl = [], efFrameName = [], efJvxBaseId = []\<rparr>"

definition exCall :: "nat \<Rightarrow> int option \<Rightarrow> elementWithFrame list \<Rightarrow> resolverCall" where
  "exCall i ci els =
     \<lparr>titleText = [84], titleFrame = [], idx = i, containerIndex = ci,
      elementType = str ''frm1'', allElements = els, creativeAssociationsMap = [],
      idPrefix = str ''frm1_HL_'', elementsByJvxBaseId = [], titleFrameMap = []\<rparr>"

section \<open>Properties of the detector\<close>

lemma isSpace_SP: "isSpace SP"
  by (simp add: isSpace_def SP_def)

lemma replaceWsRuns_id:
  "(\<forall>c \<in> set s. isSpace c \<longrightarrow> c = SP) \<Longrightarrow> noDoubleSpace s \<Longrightarrow> replaceWsRuns s = s"
proof (induction s rule: replaceWsRuns.induct)
  case 1
  then show ?case by simp
next
  case (2 c cs)
  have nd: "noDoubleSpace cs" using 2(4) by (cases cs) auto
  show ?case
  proof (cases "isSpace c")
    case True
    then have c: "c = SP" using 2(3) by simp
    have dw: "dropWhile isSpace cs = cs"
    proof (cases cs)
      case Nil
      then show ?thesis by simp
    next
      case (Cons d ds)
      then have "d \<noteq> SP" using 2(4) c by auto
      then have "\<not> isSpace d" using 2(3) Cons by auto
      then show ?thesis using Cons by simp
    qed
    show ?thesis using True c 2(1)[OF True] 2(3) nd dw by simp
  next
    case False
    show ?thesis using False 2(2)[OF False] 2(3) nd by simp
  qed
qed

lemma dropWhile_rev_last:
  "xs \<noteq> [] \<Longrightarrow> \<not> P (last xs) \<Longrightarrow> rev (dropWhile P (rev xs)) = xs"
  by (cases xs rule: rev_cases) auto

lemma trim_id:
  assumes "s = [] \<or> (\<not> isSpace (hd s) \<and> \<not> isSpace (last s))"
  shows "trim s = s"
proof (cases s)
  case Nil
  then show ?thesis by (simp add: trim_def)
next
  case (Cons a as)
  with assms have h: "\<not> isSpace a" and l: "\<not> isSpace (last s)" by auto
  have "dropWhile isSpace s = s" using Cons h by simp
  then show ?thesis using l Cons by (simp add: trim_def dropWhile_rev_last del: rev.simps)
qed

text \<open>
  The inner loop copies a text in normal form onto the end of \<open>normalized\<close>, provided a
  leading space of the text is not swallowed by the state.
\<close>

lemma scanText_normalized:
  "(\<forall>c \<in> set cs. isSpace c \<longrightarrow> c = SP) \<Longrightarrow> noDoubleSpace cs \<Longrightarrow>
   (cs \<noteq> [] \<and> hd cs = SP \<longrightarrow> \<not> lastWasSpace st \<and> normalized st \<noteq> []) \<Longrightarrow>
   normalized (scanText nd i cs st) = normalized st @ cs"
proof (induction cs arbitrary: i st)
  case Nil
  then show ?case by simp
next
  case (Cons ch cs)
  have nds: "noDoubleSpace cs" using Cons.prems(2) by (cases cs) auto
  have allsp: "\<forall>c \<in> set cs. isSpace c \<longrightarrow> c = SP" using Cons.prems(1) by simp
  show ?case
  proof (cases "isSpace ch")
    case True
    then have ch: "ch = SP" using Cons.prems(1) by simp
    with Cons.prems(3) have st: "\<not> lastWasSpace st" "normalized st \<noteq> []" by auto
    have hdne: "cs \<noteq> [] \<Longrightarrow> hd cs \<noteq> SP" using Cons.prems(2) ch by (cases cs) auto
    let ?st = "st\<lparr>normalized := normalized st @ [SP],
                   mapping := mapping st @ [\<lparr>node = nd, offset = i\<rparr>],
                   lastWasSpace := True\<rparr>"
    have "normalized (scanText nd (Suc i) cs ?st) = normalized ?st @ cs"
      by (rule Cons.IH) (use allsp nds hdne in auto)
    then show ?thesis using True ch st by simp
  next
    case False
    let ?st = "st\<lparr>normalized := normalized st @ [ch],
                mapping := mapping st @ [\<lparr>node = nd, offset = i\<rparr>],
                lastWasSpace := False\<rparr>"
    have "normalized (scanText nd (Suc i) cs ?st) = normalized ?st @ cs"
      by (rule Cons.IH) (use allsp nds in auto)
    then show ?thesis using False by simp
  qed
qed

text \<open>The text part of the state does not depend on the node and offset counters.\<close>

lemma scanText_text_indep:
  "normalized st = normalized st' \<Longrightarrow> lastWasSpace st = lastWasSpace st' \<Longrightarrow>
   normalized (scanText nd i cs st) = normalized (scanText nd' i' cs st')
   \<and> lastWasSpace (scanText nd i cs st) = lastWasSpace (scanText nd' i' cs st')"
proof (induction cs arbitrary: i i' st st')
  case Nil
  then show ?case by simp
next
  case (Cons ch cs)
  show ?case
    unfolding scanText.simps
    by (rule Cons.IH) (use Cons.prems in auto)
qed

lemma scanText_append:
  "scanText nd i (as @ bs) st = scanText nd (i + length as) bs (scanText nd i as st)"
  by (induction as arbitrary: i st) simp_all

lemma walkNodes_text:
  "normalized (walkNodes nd nodes st) = normalized (scanText 0 0 (concat nodes) st)
   \<and> lastWasSpace (walkNodes nd nodes st) = lastWasSpace (scanText 0 0 (concat nodes) st)"
proof (induction nodes arbitrary: nd st)
  case Nil
  then show ?case by simp
next
  case (Cons n nodes)
  let ?st1 = "scanText nd 0 n st"
  let ?st2 = "scanText 0 0 n st"
  have a: "normalized ?st1 = normalized ?st2 \<and> lastWasSpace ?st1 = lastWasSpace ?st2"
    by (rule scanText_text_indep) simp_all
  have b: "normalized (scanText 0 0 (concat nodes) ?st1)
             = normalized (scanText 0 (0 + length n) (concat nodes) ?st2)
           \<and> lastWasSpace (scanText 0 0 (concat nodes) ?st1)
             = lastWasSpace (scanText 0 (0 + length n) (concat nodes) ?st2)"
    by (rule scanText_text_indep) (use a in simp_all)
  show ?case using Cons.IH[of "Suc nd" ?st1] b by (simp add: scanText_append)
qed

text \<open>
  C9. Whitespace normalization is idempotent: when the text of an element (its text
  nodes, concatenated) is already in normal form, the normalization of the element's
  text (\<open>buildNormalizedTextAndMap\<close>) returns that string unchanged, and so does the
  normalization of a phrase (\<open>targetNorm\<close>) on it.
\<close>

theorem normalization_idempotent:
  assumes "isNormalized (concat (textNodes element))"
  shows "targetNorm (concat (textNodes element)) = concat (textNodes element) \<and>
         fst (buildNormalizedTextAndMap element) = concat (textNodes element)"
proof -
  let ?s = "concat (textNodes element)"
  from assms have allsp: "\<forall>c \<in> set ?s. isSpace c \<longrightarrow> c = SP" and nds: "noDoubleSpace ?s"
    and ends: "?s \<noteq> [] \<longrightarrow> \<not> isSpace (hd ?s) \<and> \<not> isSpace (last ?s)"
    by (auto simp: isNormalized_def)
  have t: "targetNorm ?s = ?s"
  proof -
    have "replaceWsRuns ?s = ?s" using allsp nds by (rule replaceWsRuns_id)
    moreover have "trim ?s = ?s" by (rule trim_id) (use ends in blast)
    ultimately show ?thesis by (simp add: targetNorm_def)
  qed
  let ?init = "\<lparr>normalized = [], mapping = [], lastWasSpace = False\<rparr>"
  have hdsp: "?s \<noteq> [] \<longrightarrow> hd ?s \<noteq> SP \<and> last ?s \<noteq> SP" using ends isSpace_SP by metis
  have "normalized (scanText 0 0 ?s ?init) = normalized ?init @ ?s"
    by (rule scanText_normalized) (use allsp nds hdsp in auto)
  then have n: "normalized (walkNodes 0 (textNodes element) ?init) = ?s"
    by (simp add: walkNodes_text)
  have "fst (buildNormalizedTextAndMap element) = ?s"
    using n hdsp unfolding buildNormalizedTextAndMap_def Let_def
    by (auto split: prod.splits)
  with t show ?thesis by simp
qed

theorem normalization_idempotent_witness:
  "isNormalized (str ''MAZDA CX-60'') \<and>
   targetNorm (str ''MAZDA CX-60'') = str ''MAZDA CX-60'' \<and>
   fst (buildNormalizedTextAndMap
          \<lparr>elId = [], elOuterHTML = [], textNodes = [str ''MAZDA'', str '' CX-60'']\<rparr>)
     = str ''MAZDA CX-60''"
proof -
  have c: "concat (textNodes \<lparr>elId = [], elOuterHTML = [], textNodes = [str ''MAZDA'', str '' CX-60'']\<rparr>)
             = str ''MAZDA CX-60''"
    by (simp add: str_def)
  have h: "isNormalized (str ''MAZDA CX-60'')"
    by (simp add: isNormalized_def str_def isSpace_def SP_def)
  from normalization_idempotent
         [of "\<lparr>elId = [], elOuterHTML = [], textNodes = [str ''MAZDA'', str '' CX-60'']\<rparr>"] h
  show ?thesis unfolding c by simp
qed

text \<open>
  C1. Whenever the detector reports \<open>found = true\<close>, a range was constructed, the
  returned \<open>rectsCount\<close> is the number of client rectangles of that range, and
  \<open>singleLine\<close> is the boolean saying that this number is 1.
\<close>

theorem found_lineCount_singleLine:
  assumes "found (isPhraseSingleLineRobust toLowerCase getClientRects element phrase occ ci)"
  shows "\<exists>res. createRangeForPhraseRobust toLowerCase element phrase occ ci = Some res \<and>
           rectsCount (isPhraseSingleLineRobust toLowerCase getClientRects element phrase occ ci)
             = length (getClientRects res) \<and>
           rects (isPhraseSingleLineRobust toLowerCase getClientRects element phrase occ ci)
             = getClientRects res \<and>
           singleLine (isPhraseSingleLineRobust toLowerCase getClientRects element phrase occ ci)
             = Some (length (getClientRects res) = 1)"
  using assms
  by (cases "createRangeForPhraseRobust toLowerCase element phrase occ ci")
     (simp_all add: isPhraseSingleLineRobust_def Let_def)

text \<open>
  A worked example: the element's text is split over two text nodes, \<open>"A "\<close> and
  \<open>" B"\<close>; its normalized text is \<open>"A B"\<close>, and the phrase \<open>"A B"\<close> is found, case
  folded, from offset 0 of the first node to offset 2 of the second.
\<close>

lemma example_normalized:
  "buildNormalizedTextAndMap \<lparr>elId = [], elOuterHTML = [], textNodes = [[65, 32], [32, 66]]\<rparr>
     = ([65, 32, 66],
        [\<lparr>node = 0, offset = 0\<rparr>, \<lparr>node = 0, offset = 1\<rparr>, \<lparr>node = 1, offset = 1\<rparr>])"
  by (simp add: buildNormalizedTextAndMap_def isSpace_def SP_def)

lemma example_targetNorm: "targetNorm [65, 32, 66] = [65, 32, 66]"
  by (simp add: targetNorm_def trim_def isSpace_def SP_def)

lemma example_toLower: "toLowerASCII [65, 32, 66] = [97, 32, 98]"
  by (simp add: toLowerASCII_def)

lemma example_range:
  "createRangeForPhraseRobust toLowerASCII
      (Some \<lparr>elId = [], elOuterHTML = [], textNodes = [[65, 32], [32, 66]]\<rparr>)
      [65, 32, 66] 0 True
   = Some \<lparr>startNode = 0, startOffset = 0, endNode = 1, endOffset = 2\<rparr>"
  by (simp add: createRangeForPhraseRobust_def example_normalized example_targetNorm
      example_toLower Let_def indexOf_def arrayGet_def setBoundaryOk_def)

theorem found_lineCount_singleLine_witness:
  "found (isPhraseSingleLineRobust toLowerASCII (\<lambda>r. [r, r])
            (Some \<lparr>elId = [], elOuterHTML = [], textNodes = [[65, 32], [32, 66]]\<rparr>)
            [65, 32, 66] 0 True) \<and>
   rectsCount (isPhraseSingleLineRobust toLowerASCII (\<lambda>r. [r, r])
            (Some \<lparr>elId = [], elOuterHTML = [], textNodes = [[65, 32], [32, 66]]\<rparr>)
            [65, 32, 66] 0 True) = 2 \<and>
   singleLine (isPhraseSingleLineRobust toLowerASCII (\<lambda>r. [r, r])
            (Some \<lparr>elId = [], elOuterHTML = [], textNodes = [[65, 32], [32, 66]]\<rparr>)
            [65, 32, 66] 0 True) = Some False"
proof -
  let ?el = "Some \<lparr>elId = [], elOuterHTML = [], textNodes = [[65, 32], [32, 66]]\<rparr>"
  have h: "found (isPhraseSingleLineRobust toLowerASCII (\<lambda>r. [r, r]) ?el [65, 32, 66] 0 True)"
    by (simp add: isPhraseSingleLineRobust_def example_range)
  from found_lineCount_singleLine [OF h] h show ?thesis
    by (auto simp: example_range)
qed

text \<open>
  What the detector returns when the phrase is found and its range has no client
  rectangle: \<open>rectsCount === 1\<close> is evaluated without a case for zero.
\<close>

lemma zero_rects_result:
  assumes "createRangeForPhraseRobust toLowerCase element phrase occ ci = Some res"
    and "getClientRects res = []"
  shows "isPhraseSingleLineRobust toLowerCase getClientRects element phrase occ ci
           = \<lparr>found = True, singleLine = Some False, rectsCount = 0, rects = []\<rparr>"
  using assms by (simp add: isPhraseSingleLineRobust_def)

lemma hidden_normalized:
  "buildNormalizedTextAndMap hiddenEl =
     ([77, 65, 90, 68, 65, 32, 67, 88, 45, 54, 48],
      [\<lparr>node = 0, offset = 0\<rparr>, \<lparr>node = 0, offset = 1\<rparr>, \<lparr>node = 0, offset = 2\<rparr>,
       \<lparr>node = 0, offset = 3\<rparr>, \<lparr>node = 0, offset = 4\<rparr>, \<lparr>node = 0, offset = 5\<rparr>,
       \<lparr>node = 0, offset = 6\<rparr>, \<lparr>node = 0, offset = 7\<rparr>, \<lparr>node = 0, offset = 8\<rparr>,
       \<lparr>node = 0, offset = 9\<rparr>, \<lparr>node = 0, offset = 10\<rparr>])"
  by (simp add: buildNormalizedTextAndMap_def hiddenEl_def str_def isSpace_def SP_def)

lemma hidden_textNodes: "textNodes hiddenEl = [[77, 65, 90, 68, 65, 32, 67, 88, 45, 54, 48]]"
  by (simp add: hiddenEl_def str_def)

lemma createRange_occ0:
  assumes "phrase \<noteq> []" and "buildNormalizedTextAndMap el = (n, mp)" and "n \<noteq> []"
  shows "createRangeForPhraseRobust lc (Some el) phrase 0 True =
     (let t = lc (targetNorm phrase); idx = indexOf (lc n) t 0
      in if idx = -1 then None
         else (case (arrayGet mp idx, arrayGet mp (idx + int (length t) - 1)) of
                 (Some startMap, Some endMap) \<Rightarrow>
                   if setBoundaryOk el (node startMap) (offset startMap)
                      \<and> setBoundaryOk el (node endMap) (offset endMap + 1)
                   then Some \<lparr>startNode = node startMap, startOffset = offset startMap,
                              endNode = node endMap, endOffset = offset endMap + 1\<rparr>
                   else None
               | _ \<Rightarrow> None))"
  using assms by (simp add: createRangeForPhraseRobust_def Let_def)

lemma lower_models:
  "toLowerASCII (targetNorm (str ''MAZDA CX-60'')) = [109, 97, 122, 100, 97, 32, 99, 120, 45, 54, 48]"
  "toLowerASCII (targetNorm (str ''MAZDA CX-30'')) = [109, 97, 122, 100, 97, 32, 99, 120, 45, 51, 48]"
  "toLowerASCII (targetNorm (str ''MAZDA2 HYBRID'')) = [109, 97, 122, 100, 97, 50, 32, 104, 121, 98, 114, 105, 100]"
  "toLowerASCII (targetNorm (str ''MAZDA CX-80'')) = [109, 97, 122, 100, 97, 32, 99, 120, 45, 56, 48]"
  "toLowerASCII (targetNorm (str ''MAZDA MX-5'')) = [109, 97, 122, 100, 97, 32, 109, 120, 45, 53]"
  "toLowerASCII (targetNorm (str ''MAZDA CX-5'')) = [109, 97, 122, 100, 97, 32, 99, 120, 45, 53]"
  "toLowerASCII (targetNorm (str ''MAZDA MX-30'')) = [109, 97, 122, 100, 97, 32, 109, 120, 45, 51, 48]"
  by (simp_all add: toLowerASCII_def targetNorm_def trim_def str_def isSpace_def SP_def)

lemma lower_text:
  "toLowerASCII [77, 65, 90, 68, 65, 32, 67, 88, 45, 54, 48] = [109, 97, 122, 100, 97, 32, 99, 120, 45, 54, 48]"
  by (simp add: toLowerASCII_def)

lemma str_nonempty: "str (c # cs) \<noteq> []"
  by (simp add: str_def)

lemma hidden_range_60:
  "createRangeForPhraseRobust toLowerASCII (Some hiddenEl) (str ''MAZDA CX-60'') 0 True
     = Some \<lparr>startNode = 0, startOffset = 0, endNode = 0, endOffset = 11\<rparr>"
  by (simp add: createRange_occ0[OF str_nonempty hidden_normalized] lower_models lower_text
      indexOf_def arrayGet_def setBoundaryOk_def hidden_textNodes Let_def)

lemma hidden_range_others:
  "createRangeForPhraseRobust toLowerASCII (Some hiddenEl) (str ''MAZDA CX-30'') 0 True = None"
  "createRangeForPhraseRobust toLowerASCII (Some hiddenEl) (str ''MAZDA2 HYBRID'') 0 True = None"
  "createRangeForPhraseRobust toLowerASCII (Some hiddenEl) (str ''MAZDA CX-80'') 0 True = None"
  "createRangeForPhraseRobust toLowerASCII (Some hiddenEl) (str ''MAZDA MX-5'') 0 True = None"
  "createRangeForPhraseRobust toLowerASCII (Some hiddenEl) (str ''MAZDA CX-5'') 0 True = None"
  "createRangeForPhraseRobust toLowerASCII (Some hiddenEl) (str ''MAZDA MX-30'') 0 True = None"
  by (simp_all add: createRange_occ0[OF str_nonempty hidden_normalized] lower_models lower_text
      indexOf_def Let_def)

text \<open>
  C3. The code does not return the null-equivalent value of the claim. The element
  \<open>frm1_HL_x\<close> holds the phrase \<open>MAZDA CX-60\<close> and is laid out with no client rectangle
  (detached or invisible): the detector finds the phrase and returns
  \<open>singleLine = false\<close> with \<open>rectsCount = 0\<close>, the ordinary verdict of a wrapped phrase, and
  \<open>checkElementForBrokenModels\<close> then lists the phrase among the broken models, where the
  source says that a phrase is flagged only if it is on multiple lines.
\<close>

theorem zero_rects_flagged_broken:
  "isPhraseSingleLineRobust toLowerASCII (\<lambda>r. ([] :: unit list)) (Some hiddenEl)
      (str ''MAZDA CX-60'') 0 True
     = \<lparr>found = True, singleLine = Some False, rectsCount = 0, rects = []\<rparr>
   \<and> checkElementForBrokenModels toLowerASCII (\<lambda>r. ([] :: unit list)) hiddenEl
     = [\<lparr>model = str ''MAZDA CX-60'', msFound = True, msSingleLine = Some False,
         msRectsCount = 0\<rparr>]"
  by (simp add: isPhraseSingleLineRobust_def checkElementForBrokenModels_def mazdaModels_def
      hidden_range_60 hidden_range_others notJs_def)

section \<open>Properties of the aggregation\<close>

lemma findIndex_ge: "- 1 \<le> findIndex p xs"
  by (induction xs) (auto simp: Let_def)

lemma findIndex_nonneg_iff: "0 \<le> findIndex p xs \<longleftrightarrow> (\<exists>x \<in> set xs. p x)"
  by (induction xs) (auto simp: Let_def)

lemma findIndex_update:
  "0 \<le> findIndex p xs \<Longrightarrow>
   xs[nat (findIndex p xs) := g (xs ! nat (findIndex p xs))] = updFirst p g xs"
proof (induction xs)
  case Nil
  then show ?case by simp
next
  case (Cons x xs)
  show ?case
  proof (cases "p x")
    case True
    then show ?thesis by simp
  next
    case False
    with Cons.prems have nn: "0 \<le> findIndex p xs" by (auto simp: Let_def split: if_splits)
    then have "nat (findIndex p xs + 1) = Suc (nat (findIndex p xs))" by simp
    with False nn Cons.IH[OF nn] show ?thesis by (simp add: Let_def)
  qed
qed

lemma updFirst_none: "\<not> (\<exists>x \<in> set xs. p x) \<Longrightarrow> updFirst p g xs = xs"
  by (induction xs) auto

lemma map_updFirst: "(\<And>x. f (g x) = f x) \<Longrightarrow> map f (updFirst p g xs) = map f xs"
  by (induction xs) auto

lemma filter_updFirst_same:
  "(\<And>x. p (g x) = p x) \<Longrightarrow>
   filter p (updFirst p g xs) = (case filter p xs of [] \<Rightarrow> [] | m # ms \<Rightarrow> g m # ms)"
  by (induction xs) auto

lemma filter_updFirst_other:
  "(\<And>x. q (g x) = q x) \<Longrightarrow> (\<And>x. p x \<Longrightarrow> \<not> q x) \<Longrightarrow>
   filter q (updFirst p g xs) = filter q xs"
  by (induction xs) auto

lemma mset_concat_updFirst:
  "\<exists>x \<in> set xs. p x \<Longrightarrow> (\<And>x. mset (f (g x)) = mset (f x) + c) \<Longrightarrow>
   mset (concat (map f (updFirst p g xs))) = mset (concat (map f xs)) + c"
  by (induction xs) auto

lemma creativeVariation_mergeLists: "creativeVariation (mergeLists m am) = creativeVariation m"
  by (simp add: mergeLists_def)

lemma tagged_mergeLists:
  "mset (taggedMatches (mergeLists m am)) = mset (taggedMatches m) + mset (taggedFrame am)"
  by (simp add: mergeLists_def taggedMatches_def taggedFrame_def)

lemma tagged_newEntry: "taggedMatches (newEntry s) = taggedFrame (listsOf s)"
  by (simp add: newEntry_def taggedMatches_def taggedFrame_def)

lemma creativeVariation_newEntry:
  "creativeVariation (newEntry s) = (if sfCreativeVariation s = [] then NA else sfCreativeVariation s)"
  by (simp add: newEntry_def)

lemma addFrame_eq:
  "addFrame hl s =
     (if labelled (sfCreativeVariation s) \<and> (\<exists>m \<in> set hl. creativeVariation m = sfCreativeVariation s)
      then updFirst (\<lambda>m. creativeVariation m = sfCreativeVariation s) (\<lambda>m. mergeLists m (listsOf s)) hl
      else hl @ [newEntry s])"
proof -
  let ?p = "\<lambda>m. creativeVariation m = sfCreativeVariation s"
  show ?thesis
  proof (cases "labelled (sfCreativeVariation s) \<and> (\<exists>m \<in> set hl. ?p m)")
    case True
    then have nn: "0 \<le> findIndex ?p hl" by (simp add: findIndex_nonneg_iff)
    from True have l: "sfCreativeVariation s \<noteq> []" "sfCreativeVariation s \<noteq> NA"
      by (auto simp: labelled_def)
    have "addFrame hl s = hl[nat (findIndex ?p hl) := mergeLists (hl ! nat (findIndex ?p hl)) (listsOf s)]"
      using nn l by (simp add: addFrame_def Let_def)
    also have "\<dots> = updFirst ?p (\<lambda>m. mergeLists m (listsOf s)) hl"
      using nn by (rule findIndex_update)
    finally show ?thesis using True by simp
  next
    case False
    then have "\<not> labelled (sfCreativeVariation s) \<or> \<not> 0 \<le> findIndex ?p hl"
      by (simp add: findIndex_nonneg_iff)
    then have "addFrame hl s = hl @ [newEntry s]"
      by (auto simp: addFrame_def Let_def labelled_def newEntry_def)
    then show ?thesis unfolding if_not_P[OF False] .
  qed
qed

lemma scanFrames_eq: "scanFrames cvm frames = foldl addFrame [] (addedFrames cvm frames)"
proof -
  have "foldl (scanFrame cvm) hl frames = foldl addFrame hl (addedFrames cvm frames)" for hl
    by (induction frames arbitrary: hl)
       (auto simp: addedFrames_def scannedFrames_def scanFrame_def List.map_filter_simps split: option.splits)
  then show ?thesis by (simp add: scanFrames_def)
qed

lemma addFrame_merge:
  "labelled (sfCreativeVariation s) \<Longrightarrow> \<exists>m \<in> set hl. creativeVariation m = sfCreativeVariation s \<Longrightarrow>
   addFrame hl s = updFirst (\<lambda>m. creativeVariation m = sfCreativeVariation s)
                     (\<lambda>m. mergeLists m (listsOf s)) hl"
  by (simp add: addFrame_eq)

lemma addFrame_push:
  "\<not> (labelled (sfCreativeVariation s) \<and> (\<exists>m \<in> set hl. creativeVariation m = sfCreativeVariation s)) \<Longrightarrow>
   addFrame hl s = hl @ [newEntry s]"
  unfolding addFrame_eq by (rule if_not_P)

lemma distinct_filter_mono:
  "(\<And>x. P x \<Longrightarrow> Q x) \<Longrightarrow> distinct (filter Q xs) \<Longrightarrow> distinct (filter P xs)"
  by (induction xs) (auto split: if_splits)

lemma addFrame_labelsDistinct:
  assumes "labelsDistinct hl"
  shows "labelsDistinct (addFrame hl s)"
proof (cases "labelled (sfCreativeVariation s) \<and> (\<exists>m \<in> set hl. creativeVariation m = sfCreativeVariation s)")
  case True
  then have "map creativeVariation (addFrame hl s) = map creativeVariation hl"
    by (simp add: addFrame_merge map_updFirst creativeVariation_mergeLists)
  with assms show ?thesis by (simp add: labelsDistinct_def)
next
  case False
  then have eq: "addFrame hl s = hl @ [newEntry s]" by (rule addFrame_push)
  show ?thesis
  proof (cases "labelled (sfCreativeVariation s)")
    case True
    with False have "sfCreativeVariation s \<notin> set (map creativeVariation hl)" by auto
    with assms True show ?thesis
      by (auto simp: eq labelsDistinct_def creativeVariation_newEntry labelled_def)
  next
    case False
    then have "creativeVariation (newEntry s) = NA"
      by (auto simp: creativeVariation_newEntry labelled_def)
    with assms show ?thesis by (simp add: eq labelsDistinct_def)
  qed
qed

lemma foldl_addFrame_labelsDistinct: "labelsDistinct (foldl addFrame [] ss)"
  by (induction ss rule: rev_induct) (simp_all add: labelsDistinct_def[of "[]"] addFrame_labelsDistinct)

lemma filter_label_foldl_addFrame:
  assumes L: "labelled L"
  shows "filter (\<lambda>m. creativeVariation m = L) (foldl addFrame [] ss) =
         (case filter (\<lambda>s. sfCreativeVariation s = L) ss of
            [] \<Rightarrow> []
          | s # rest \<Rightarrow> [foldl mergeLists (newEntry s) (map listsOf rest)])"
proof (induction ss rule: rev_induct)
  case Nil
  then show ?case by simp
next
  case (snoc s ss)
  let ?hl = "foldl addFrame [] ss"
  let ?q = "\<lambda>m. creativeVariation m = L"
  let ?g = "\<lambda>m. mergeLists m (listsOf s)"
  have step: "foldl addFrame [] (ss @ [s]) = addFrame ?hl s" by simp
  show ?case
  proof (cases "sfCreativeVariation s = L")
    case same: True
    show ?thesis
    proof (cases "\<exists>m \<in> set ?hl. creativeVariation m = L")
      case True
      then have ne: "filter ?q ?hl \<noteq> []" by (simp add: filter_empty_conv)
      then obtain s0 rest where fs: "filter (\<lambda>s. sfCreativeVariation s = L) ss = s0 # rest"
        using snoc.IH by (cases "filter (\<lambda>s. sfCreativeVariation s = L) ss") auto
      with snoc.IH have fh: "filter ?q ?hl = [foldl mergeLists (newEntry s0) (map listsOf rest)]"
        by simp
      have "addFrame ?hl s = updFirst ?q ?g ?hl"
        using True L same by (simp add: addFrame_merge)
      then have "filter ?q (addFrame ?hl s) = (case filter ?q ?hl of [] \<Rightarrow> [] | m # ms \<Rightarrow> ?g m # ms)"
        by (simp add: filter_updFirst_same creativeVariation_mergeLists)
      then show ?thesis using fh fs same by simp
    next
      case False
      then have fh: "filter ?q ?hl = []" by (simp add: filter_empty_conv)
      with snoc.IH have fs: "filter (\<lambda>s. sfCreativeVariation s = L) ss = []"
        by (cases "filter (\<lambda>s. sfCreativeVariation s = L) ss") auto
      have "addFrame ?hl s = ?hl @ [newEntry s]" using False same by (simp add: addFrame_push)
      moreover have "creativeVariation (newEntry s) = L"
        using same L by (simp add: creativeVariation_newEntry labelled_def)
      ultimately show ?thesis using fh fs same by simp
    qed
  next
    case other: False
    have "filter ?q (addFrame ?hl s) = filter ?q ?hl"
    proof (cases "labelled (sfCreativeVariation s) \<and> (\<exists>m \<in> set ?hl. creativeVariation m = sfCreativeVariation s)")
      case True
      then have "addFrame ?hl s = updFirst (\<lambda>m. creativeVariation m = sfCreativeVariation s) ?g ?hl"
        by (simp add: addFrame_merge)
      moreover have "filter ?q (updFirst (\<lambda>m. creativeVariation m = sfCreativeVariation s) ?g ?hl)
                       = filter ?q ?hl"
        by (rule filter_updFirst_other) (use other in \<open>auto simp: creativeVariation_mergeLists\<close>)
      ultimately show ?thesis by simp
    next
      case False
      then have "addFrame ?hl s = ?hl @ [newEntry s]" by (rule addFrame_push)
      moreover have "creativeVariation (newEntry s) \<noteq> L"
        using other L by (auto simp: creativeVariation_newEntry labelled_def)
      ultimately show ?thesis by simp
    qed
    then show ?thesis using snoc.IH other by simp
  qed
qed

lemma foldl_mergeLists:
  "foldl mergeLists e ams =
     e\<lparr>matches := matches e @ concat (map frm1 ams),
       matches2 := matches2 e @ concat (map frm2 ams),
       matches3 := matches3 e @ concat (map frm3 ams),
       matches4 := matches4 e @ concat (map frm4 ams),
       matchesSL1 := matchesSL1 e @ concat (map frm1SL ams),
       matchesSL2 := matchesSL2 e @ concat (map frm2SL ams),
       matchesSL3 := matchesSL3 e @ concat (map frm3SL ams),
       matchesSL4 := matchesSL4 e @ concat (map frm4SL ams)\<rparr>"
  by (induction ams arbitrary: e) (simp_all add: mergeLists_def)

lemma merged_eq_mergedRecord:
  "sfCreativeVariation s = L \<Longrightarrow> L \<noteq> [] \<Longrightarrow>
   foldl mergeLists (newEntry s) (map listsOf rest) = mergedRecord L (s # rest)"
  by (simp add: foldl_mergeLists newEntry_def mergedRecord_def comp_def)

lemma foldl_filterStep:
  "distinct (filter isValidCreativeVar (map creativeVariation hl)) \<Longrightarrow>
   (\<forall>m \<in> set hl. isValidCreativeVar (creativeVariation m) \<longrightarrow> creativeVariation m \<notin> seen) \<Longrightarrow>
   fst (foldl filterStep (valid, seen) hl) = valid @ filter keep hl"
proof (induction hl arbitrary: valid seen)
  case Nil
  then show ?case by simp
next
  case (Cons m hl)
  show ?case
  proof (cases "isValidCreativeVar (creativeVariation m)")
    case True
    with Cons.prems have ns: "creativeVariation m \<notin> seen" by simp
    have st: "filterStep (valid, seen) m = (valid @ [m], insert (creativeVariation m) seen)"
      using True ns by (simp add: filterStep_def)
    have d: "distinct (filter isValidCreativeVar (map creativeVariation hl))"
      using Cons.prems(1) by (simp split: if_splits)
    have "creativeVariation m \<notin> set (filter isValidCreativeVar (map creativeVariation hl))"
      using Cons.prems(1) True by simp
    then have "\<forall>m' \<in> set hl. isValidCreativeVar (creativeVariation m') \<longrightarrow>
                 creativeVariation m' \<noteq> creativeVariation m"
      by (auto simp: image_iff)
    then have fresh: "\<forall>m' \<in> set hl. isValidCreativeVar (creativeVariation m') \<longrightarrow>
                   creativeVariation m' \<notin> insert (creativeVariation m) seen"
      using Cons.prems(2) by auto
    show ?thesis using Cons.IH[OF d fresh] True by (simp add: st keep_def)
  next
    case False
    have d: "distinct (filter isValidCreativeVar (map creativeVariation hl))"
      using Cons.prems(1) False by simp
    have fresh: "\<forall>m' \<in> set hl. isValidCreativeVar (creativeVariation m') \<longrightarrow>
                   creativeVariation m' \<notin> seen"
      using Cons.prems by auto
    show ?thesis
    proof (cases "hasElements m")
      case True
      then have st: "filterStep (valid, seen) m = (valid @ [m], seen)"
        using False by (simp add: filterStep_def)
      show ?thesis using Cons.IH[OF d fresh] True by (simp add: st keep_def)
    next
      case nel: False
      then have st: "filterStep (valid, seen) m = (valid, seen)"
        using False by (simp add: filterStep_def)
      show ?thesis using Cons.IH[OF d fresh] False nel by (simp add: st keep_def)
    qed
  qed
qed

lemma validHlMatches_filter:
  assumes "labelsDistinct hl"
  shows "validHlMatches hl = filter keep hl"
proof -
  have "distinct (filter isValidCreativeVar (map creativeVariation hl))"
    by (rule distinct_filter_mono[where Q = "\<lambda>l. l \<noteq> NA"])
       (use assms in \<open>auto simp: isValidCreativeVar_def labelsDistinct_def\<close>)
  then show ?thesis using foldl_filterStep[of hl "{}" "[]"] by (simp add: validHlMatches_def)
qed

lemma finalHlMatches_eq:
  "finalHlMatches cvm frames = filter keep (foldl addFrame [] (addedFrames cvm frames))"
  by (simp add: finalHlMatches_def scanFrames_eq validHlMatches_filter foldl_addFrame_labelsDistinct)

lemma exFrame_scanned:
  "evaluateFrame [] (exFrame url title els) =
     Some \<lparr>sfUrl = url, sfName = [], sfIsJvxBase = False, sfCreativeVariation = title,
           sfMatches = Some (noMatches\<lparr>frm1 := els\<rparr>)\<rparr>"
  by (simp add: evaluateFrame_def exFrame_def matchJvxBaseId_def resolveCreativeVariation_def
      getOrEmpty_def)

lemma hasElements_mergedRecord:
  assumes "s \<in> set grp" "frameHasElements s"
  shows "hasElements (mergedRecord L grp)"
proof -
  from assms(2) obtain am where am: "sfMatches s = Some am"
    and ne: "frm1 am \<noteq> [] \<or> frm2 am \<noteq> [] \<or> frm3 am \<noteq> [] \<or> frm4 am \<noteq> []
             \<or> frm1SL am \<noteq> [] \<or> frm2SL am \<noteq> [] \<or> frm3SL am \<noteq> [] \<or> frm4SL am \<noteq> []"
    by (auto simp: frameHasElements_def split: option.splits)
  have l: "listsOf s = am" using am by (simp add: listsOf_def)
  have c: "f (listsOf s) \<noteq> [] \<Longrightarrow> concat (map (\<lambda>s. f (listsOf s)) grp) \<noteq> []" for f :: "frameMatches \<Rightarrow> element list"
    using assms(1) by auto
  from ne l c[of frm1] c[of frm2] c[of frm3] c[of frm4] c[of frm1SL] c[of frm2SL] c[of frm3SL] c[of frm4SL]
  show ?thesis unfolding hasElements_def mergedRecord_def by (simp add: l) blast
qed

text \<open>
  C7. Let \<open>L\<close> be a label that is neither empty nor the placeholder \<open>N/A\<close>, carried by
  at least one frame that is added to \<open>hlMatches\<close> (two or more, in the claim), and
  either not made of whitespace only (a cleaned label never is) or carried by a frame
  with elements. Then the final \<open>hlMatches\<close> holds exactly one record with that label,
  and its per-category lists are the concatenation, in scan order, of the lists of all
  the added frames with that label (URL and name are the first frame's).
\<close>

theorem same_label_single_record:
  assumes "L \<noteq> []" and "L \<noteq> NA"
    and "filter (\<lambda>s. sfCreativeVariation s = L) (addedFrames cvm frames) \<noteq> []"
    and "trim L \<noteq> [] \<or>
         (\<exists>s \<in> set (addedFrames cvm frames). sfCreativeVariation s = L \<and> frameHasElements s)"
  shows "filter (\<lambda>m. creativeVariation m = L) (finalHlMatches cvm frames)
         = [mergedRecord L (filter (\<lambda>s. sfCreativeVariation s = L) (addedFrames cvm frames))]"
proof -
  let ?grp = "filter (\<lambda>s. sfCreativeVariation s = L) (addedFrames cvm frames)"
  from assms(3) obtain s0 rest where g: "?grp = s0 # rest" by (cases ?grp) auto
  then have "s0 \<in> set ?grp" by simp
  then have s0: "sfCreativeVariation s0 = L" by simp
  have lab: "labelled L" using assms by (simp add: labelled_def)
  have "filter (\<lambda>m. creativeVariation m = L) (foldl addFrame [] (addedFrames cvm frames))
          = [foldl mergeLists (newEntry s0) (map listsOf rest)]"
    by (simp add: filter_label_foldl_addFrame[OF lab] g)
  also have "\<dots> = [mergedRecord L ?grp]"
    using merged_eq_mergedRecord[OF s0 assms(1), of rest] g by simp
  finally have one: "filter (\<lambda>m. creativeVariation m = L) (foldl addFrame [] (addedFrames cvm frames))
          = [mergedRecord L ?grp]" .
  have k: "keep (mergedRecord L ?grp)"
  proof (cases "trim L \<noteq> []")
    case True
    then have "isValidCreativeVar L" using assms(1,2) by (simp add: isValidCreativeVar_def)
    then show ?thesis by (simp add: keep_def mergedRecord_def)
  next
    case False
    with assms(4) obtain s where "s \<in> set ?grp" "frameHasElements s" by auto
    then show ?thesis using hasElements_mergedRecord by (simp add: keep_def)
  qed
  have "filter (\<lambda>m. creativeVariation m = L) (finalHlMatches cvm frames)
          = filter keep (filter (\<lambda>m. creativeVariation m = L) (foldl addFrame [] (addedFrames cvm frames)))"
    by (simp add: finalHlMatches_eq conj_commute)
  then show ?thesis using one k by simp
qed

lemma NA_ne: "NA \<noteq> []" "[86] \<noteq> NA" "[87] \<noteq> NA"
  by (simp_all add: NA_def str_def)

lemma ex_scannedFrames:
  "scannedFrames [] [exFrame u1 t1 e1, exFrame u2 t2 e2] =
     [\<lparr>sfUrl = u1, sfName = [], sfIsJvxBase = False, sfCreativeVariation = t1,
       sfMatches = Some (noMatches\<lparr>frm1 := e1\<rparr>)\<rparr>,
      \<lparr>sfUrl = u2, sfName = [], sfIsJvxBase = False, sfCreativeVariation = t2,
       sfMatches = Some (noMatches\<lparr>frm1 := e2\<rparr>)\<rparr>]"
  by (simp add: scannedFrames_def List.map_filter_simps exFrame_scanned)

theorem same_label_single_record_witness:
  "filter (\<lambda>m. creativeVariation m = [86])
     (finalHlMatches [] [exFrame [97] [86] [exElement 120], exFrame [98] [86] [exElement 121]])
   = [\<lparr>frameUrl = [97], frameName = [], creativeVariation = [86],
       matches = [exElement 120, exElement 121], matches2 = [], matches3 = [], matches4 = [],
       matchesSL1 = [], matchesSL2 = [], matchesSL3 = [], matchesSL4 = []\<rparr>]"
proof -
  let ?frames = "[exFrame [97] [86] [exElement 120], exFrame [98] [86] [exElement 121]]"
  have h1: "[86] \<noteq> ([] :: jsstring)" by simp
  have h3: "filter (\<lambda>s. sfCreativeVariation s = [86]) (addedFrames [] ?frames) \<noteq> []"
    by (simp add: addedFrames_def ex_scannedFrames frameHasElements_def noMatches_def)
  have h4: "trim [86] \<noteq> [] \<or>
            (\<exists>s \<in> set (addedFrames [] ?frames). sfCreativeVariation s = [86] \<and> frameHasElements s)"
    by (simp add: trim_def isSpace_def)
  from same_label_single_record [OF h1 NA_ne(2) h3 h4] show ?thesis
    by (simp add: addedFrames_def ex_scannedFrames frameHasElements_def noMatches_def
        mergedRecord_def listsOf_def)
qed

text \<open>
  C6, as stated, fails: two frames with the same label each hold an element with the
  id \<open>"x"\<close>; the \<open>matches\<close> list of the final output then has that id twice.
\<close>

lemma ex_final_same:
  "finalHlMatches [] [exFrame [97] [86] [exElement 120], exFrame [98] [86] [exElement 120]]
   = [\<lparr>frameUrl = [97], frameName = [], creativeVariation = [86],
       matches = [exElement 120, exElement 120], matches2 = [], matches3 = [], matches4 = [],
       matchesSL1 = [], matchesSL2 = [], matchesSL3 = [], matchesSL4 = []\<rparr>]"
  by (simp add: finalHlMatches_eq addedFrames_def ex_scannedFrames frameHasElements_def
      noMatches_def addFrame_def NA_ne listsOf_def mergeLists_def keep_def hasElements_def)

theorem collection_dedup_counterexample:
  "\<not> distinct (map id' (concat (map matches
       (finalHlMatches [] [exFrame [97] [86] [exElement 120], exFrame [98] [86] [exElement 120]]))))"
  by (simp add: ex_final_same)

lemma concat_map_filter_empty:
  "(\<And>x. \<not> P x \<Longrightarrow> f x = []) \<Longrightarrow> concat (map f (filter P xs)) = concat (map f xs)"
  by (induction xs) auto

lemma taggedFrame_empty: "\<not> frameHasElements s \<Longrightarrow> taggedFrame (listsOf s) = []"
  by (auto simp: frameHasElements_def listsOf_def taggedFrame_def noMatches_def split: option.splits)

lemma taggedMatches_empty_iff: "taggedMatches m = [] \<longleftrightarrow> \<not> hasElements m"
  by (auto simp: taggedMatches_def hasElements_def)

lemma tagged_addFrame:
  "mset (concat (map taggedMatches (addFrame hl s)))
     = mset (concat (map taggedMatches hl)) + mset (taggedFrame (listsOf s))"
proof (cases "labelled (sfCreativeVariation s) \<and> (\<exists>m \<in> set hl. creativeVariation m = sfCreativeVariation s)")
  case True
  then have "addFrame hl s = updFirst (\<lambda>m. creativeVariation m = sfCreativeVariation s)
                     (\<lambda>m. mergeLists m (listsOf s)) hl"
    by (simp add: addFrame_merge)
  moreover have "mset (concat (map taggedMatches (updFirst (\<lambda>m. creativeVariation m = sfCreativeVariation s)
                     (\<lambda>m. mergeLists m (listsOf s)) hl)))
        = mset (concat (map taggedMatches hl)) + mset (taggedFrame (listsOf s))"
    by (rule mset_concat_updFirst) (use True in \<open>auto simp: tagged_mergeLists\<close>)
  ultimately show ?thesis by simp
next
  case False
  then have "addFrame hl s = hl @ [newEntry s]" by (rule addFrame_push)
  then show ?thesis by (simp add: tagged_newEntry)
qed

lemma tagged_foldl_addFrame:
  "mset (concat (map taggedMatches (foldl addFrame hl ss)))
     = mset (concat (map taggedMatches hl)) + mset (concat (map (\<lambda>s. taggedFrame (listsOf s)) ss))"
  by (induction ss arbitrary: hl) (simp_all add: tagged_addFrame)

text \<open>
  C6, amended. The collection does not deduplicate by id: the final \<open>hlMatches\<close> holds,
  category by category, exactly the elements the scanned frames returned, each as
  often as it was returned. So an id occurs twice in a category of the output exactly
  when it was collected twice for that category over the frames.
\<close>

theorem collection_keeps_every_element:
  "mset (concat (map taggedMatches (finalHlMatches cvm frames)))
     = mset (concat (map (\<lambda>s. taggedFrame (listsOf s)) (scannedFrames cvm frames)))
   \<and> (distinct (map (\<lambda>(k, e). (k, id' e)) (concat (map taggedMatches (finalHlMatches cvm frames))))
      \<longleftrightarrow> distinct (map (\<lambda>(k, e). (k, id' e))
             (concat (map (\<lambda>s. taggedFrame (listsOf s)) (scannedFrames cvm frames)))))"
proof -
  let ?out = "concat (map taggedMatches (finalHlMatches cvm frames))"
  let ?inp = "concat (map (\<lambda>s. taggedFrame (listsOf s)) (scannedFrames cvm frames))"
  have "?out = concat (map taggedMatches (foldl addFrame [] (addedFrames cvm frames)))"
    unfolding finalHlMatches_eq
    by (rule concat_map_filter_empty) (simp add: keep_def taggedMatches_empty_iff)
  moreover have "concat (map (\<lambda>s. taggedFrame (listsOf s)) (addedFrames cvm frames)) = ?inp"
    unfolding addedFrames_def
    by (rule concat_map_filter_empty) (simp add: taggedFrame_empty)
  ultimately have eq: "mset ?out = mset ?inp"
    by (simp add: tagged_foldl_addFrame)
  then have "mset (map (\<lambda>(k, e). (k, id' e)) ?out) = mset (map (\<lambda>(k, e). (k, id' e)) ?inp)"
    by (metis mset_map)
  then have "distinct (map (\<lambda>(k, e). (k, id' e)) ?out) \<longleftrightarrow> distinct (map (\<lambda>(k, e). (k, id' e)) ?inp)"
    by (rule mset_eq_imp_distinct_iff)
  with eq show ?thesis by simp
qed

theorem collection_keeps_every_element_witness:
  "mset (concat (map taggedMatches
      (finalHlMatches [] [exFrame [97] [86] [exElement 120], exFrame [98] [86] [exElement 120]])))
   = {#(1, exElement 120), (1, exElement 120)#}"
  using collection_keeps_every_element
          [of "[]" "[exFrame [97] [86] [exElement 120], exFrame [98] [86] [exElement 120]]"]
  by (simp add: ex_scannedFrames taggedFrame_def listsOf_def noMatches_def)

lemma count_image_list:
  "count (image_mset f (mset xs)) y = length (filter (\<lambda>x. f x = y) xs)"
  by (induction xs) auto

lemma mset_concat_map_perm:
  assumes "mset xs = mset ys"
  shows "mset (concat (map f xs)) = mset (concat (map f ys))"
proof -
  have "mset (concat (map f zs)) = sum_mset (image_mset (\<lambda>z. mset (f z)) (mset zs))" for zs
    by (induction zs) auto
  with assms show ?thesis by simp
qed

lemma tagged_foldl_mergeLists:
  "mset (taggedMatches (foldl mergeLists e ams))
     = mset (taggedMatches e) + mset (concat (map taggedFrame ams))"
  by (induction ams arbitrary: e) (simp_all add: tagged_mergeLists)

text \<open>The entries labelled N/A are those pushed for the frames without a label.\<close>

lemma filter_NA_foldl_addFrame:
  "filter (\<lambda>m. creativeVariation m = NA) (foldl addFrame [] ss)
     = map newEntry (filter (\<lambda>s. \<not> labelled (sfCreativeVariation s)) ss)"
proof (induction ss rule: rev_induct)
  case Nil
  then show ?case by simp
next
  case (snoc s ss)
  let ?hl = "foldl addFrame [] ss"
  let ?q = "\<lambda>m. creativeVariation m = NA"
  show ?case
  proof (cases "labelled (sfCreativeVariation s)")
    case lab: True
    have "filter ?q (addFrame ?hl s) = filter ?q ?hl"
    proof (cases "\<exists>m \<in> set ?hl. creativeVariation m = sfCreativeVariation s")
      case True
      then have "addFrame ?hl s = updFirst (\<lambda>m. creativeVariation m = sfCreativeVariation s)
                     (\<lambda>m. mergeLists m (listsOf s)) ?hl"
        using lab by (simp add: addFrame_merge)
      moreover have "filter ?q (updFirst (\<lambda>m. creativeVariation m = sfCreativeVariation s)
                     (\<lambda>m. mergeLists m (listsOf s)) ?hl) = filter ?q ?hl"
        by (rule filter_updFirst_other)
           (use lab in \<open>auto simp: creativeVariation_mergeLists labelled_def\<close>)
      ultimately show ?thesis by simp
    next
      case False
      then have "addFrame ?hl s = ?hl @ [newEntry s]" by (simp add: addFrame_push)
      moreover have "creativeVariation (newEntry s) \<noteq> NA"
        using lab by (simp add: creativeVariation_newEntry labelled_def)
      ultimately show ?thesis by simp
    qed
    then show ?thesis using snoc.IH lab by simp
  next
    case False
    then have "addFrame ?hl s = ?hl @ [newEntry s]" by (simp add: addFrame_push)
    moreover have "creativeVariation (newEntry s) = NA"
      using False by (auto simp: creativeVariation_newEntry labelled_def)
    ultimately show ?thesis using snoc.IH False by simp
  qed
qed

lemma NA_nonempty: "NA \<noteq> []"
  by (simp add: NA_def str_def)

lemma no_empty_label: "\<forall>m \<in> set (foldl addFrame [] ss). creativeVariation m \<noteq> []"
proof (induction ss rule: rev_induct)
  case Nil
  then show ?case by simp
next
  case (snoc s ss)
  let ?hl = "foldl addFrame [] ss"
  have "set (map creativeVariation (addFrame ?hl s))
          \<subseteq> set (map creativeVariation ?hl) \<union> {creativeVariation (newEntry s)}"
  proof (cases "labelled (sfCreativeVariation s) \<and> (\<exists>m \<in> set ?hl. creativeVariation m = sfCreativeVariation s)")
    case True
    then have "map creativeVariation (addFrame ?hl s) = map creativeVariation ?hl"
      by (simp add: addFrame_merge map_updFirst creativeVariation_mergeLists)
    then show ?thesis by auto
  next
    case False
    then have "addFrame ?hl s = ?hl @ [newEntry s]" by (rule addFrame_push)
    then show ?thesis by auto
  qed
  moreover have "creativeVariation (newEntry s) \<noteq> []"
    by (simp add: creativeVariation_newEntry NA_nonempty)
  ultimately show ?case using snoc.IH by auto
qed

text \<open>How often a summary occurs among the entries, from the frames that were added.\<close>

lemma count_summary:
  "count (finalSummary (foldl addFrame [] ss)) (L, c) =
     (if labelled L then
        (if filter (\<lambda>s. sfCreativeVariation s = L) ss \<noteq> []
            \<and> mset (concat (map (\<lambda>s. taggedFrame (listsOf s))
                       (filter (\<lambda>s. sfCreativeVariation s = L) ss))) = c
         then 1 else 0)
      else if L = NA then
        length (filter (\<lambda>s. mset (taggedFrame (listsOf s)) = c)
                  (filter (\<lambda>s. \<not> labelled (sfCreativeVariation s)) ss))
      else 0)"
proof -
  let ?hl = "foldl addFrame [] ss"
  have cnt: "count (finalSummary ?hl) (L, c)
          = length (filter (\<lambda>m. mset (taggedMatches m) = c) (filter (\<lambda>m. creativeVariation m = L) ?hl))"
    by (simp add: finalSummary_def count_image_list recordSummary_def conj_commute)
  show ?thesis
  proof (cases "labelled L")
    case True
    show ?thesis
    proof (cases "filter (\<lambda>s. sfCreativeVariation s = L) ss")
      case Nil
      then show ?thesis using True by (simp add: cnt filter_label_foldl_addFrame)
    next
      case (Cons s0 rest)
      have "mset (taggedMatches (foldl mergeLists (newEntry s0) (map listsOf rest)))
              = mset (concat (map (\<lambda>s. taggedFrame (listsOf s)) (s0 # rest)))"
        by (simp add: tagged_foldl_mergeLists tagged_newEntry comp_def)
      then show ?thesis using True Cons
        by (simp add: cnt filter_label_foldl_addFrame)
    qed
  next
    case False
    show ?thesis
    proof (cases "L = NA")
      case True
      have fm: "filter (\<lambda>m. mset (taggedMatches m) = c) (map newEntry xs)
              = map newEntry (filter (\<lambda>s. mset (taggedFrame (listsOf s)) = c) xs)" for xs
        by (induction xs) (simp_all add: tagged_newEntry)
      show ?thesis using True False cnt
        by (simp add: filter_NA_foldl_addFrame fm)
    next
      case notNA: False
      with False have "L = []" by (simp add: labelled_def)
      then have "filter (\<lambda>m. creativeVariation m = L) ?hl = []"
        using no_empty_label[of ss] by (simp add: filter_empty_conv)
      then show ?thesis using False notNA by (simp add: cnt)
    qed
  qed
qed

lemma finalSummary_perm:
  assumes "mset ss = mset ss'"
  shows "finalSummary (foldl addFrame [] ss) = finalSummary (foldl addFrame [] ss')"
proof (rule multiset_eqI)
  fix x :: "jsstring \<times> (nat \<times> element) multiset"
  obtain L c where x: "x = (L, c)" by (cases x)
  have f: "mset (filter P ss) = mset (filter P ss')" for P
    using assms by simp
  have e: "filter P ss \<noteq> [] \<longleftrightarrow> filter P ss' \<noteq> []" for P
    using f[of P] by (metis mset_zero_iff)
  have m: "mset (concat (map g (filter P ss))) = mset (concat (map g (filter P ss')))"
    for P and g :: "scannedFrame \<Rightarrow> (nat \<times> element) list"
    by (rule mset_concat_map_perm) (rule f)
  have l: "length (filter Q (filter P ss)) = length (filter Q (filter P ss'))" for P Q
    using f[of "\<lambda>s. P s \<and> Q s"] by (metis filter_filter conj_commute size_mset)
  show "count (finalSummary (foldl addFrame [] ss)) x = count (finalSummary (foldl addFrame [] ss')) x"
    unfolding x count_summary
    using e[of "\<lambda>s. sfCreativeVariation s = L"] m[of "\<lambda>s. taggedFrame (listsOf s)" "\<lambda>s. sfCreativeVariation s = L"]
      l[of "\<lambda>s. mset (taggedFrame (listsOf s)) = c" "\<lambda>s. \<not> labelled (sfCreativeVariation s)"]
    by simp
qed

lemma finalSummary_filter_keep:
  "finalSummary (filter keep hl)
     = filter_mset (\<lambda>(L, c). isValidCreativeVar L \<or> c \<noteq> {#}) (finalSummary hl)"
proof -
  have k: "keep m \<longleftrightarrow> (\<lambda>(L, c). isValidCreativeVar L \<or> c \<noteq> {#}) (recordSummary m)" for m
    by (auto simp: keep_def recordSummary_def taggedMatches_empty_iff)
  then have k': "keep = (\<lambda>m. (\<lambda>(L, c). isValidCreativeVar L \<or> c \<noteq> {#}) (recordSummary m))"
    by (intro ext)
  have "finalSummary (filter keep hl)
          = image_mset recordSummary
              (filter_mset (\<lambda>m. (\<lambda>(L, c). isValidCreativeVar L \<or> c \<noteq> {#}) (recordSummary m)) (mset hl))"
    unfolding finalSummary_def by (subst k') simp
  then show ?thesis
    unfolding finalSummary_def by (simp only: image_mset_filter_mset_swap)
qed

lemma addedFrames_append:
  "addedFrames cvm (A @ B) = addedFrames cvm A @ addedFrames cvm B"
  by (simp add: addedFrames_def scannedFrames_def List.map_filter_def)

text \<open>
  C10. Aggregation is commutative in the frame order: scanning the frames \<open>A\<close> then
  the frames \<open>B\<close>, or \<open>B\<close> then \<open>A\<close>, gives final records with the same labels and,
  per category, the same multiset of elements (the summary leaves out the order of the
  records, the order inside the lists, and the URL and name, which are those of the
  first frame of a label).
\<close>

theorem aggregation_commutes:
  "finalSummary (finalHlMatches cvm (A @ B)) = finalSummary (finalHlMatches cvm (B @ A))"
proof -
  have "mset (addedFrames cvm (A @ B)) = mset (addedFrames cvm (B @ A))"
    by (simp add: addedFrames_append)
  then have "finalSummary (foldl addFrame [] (addedFrames cvm (A @ B)))
           = finalSummary (foldl addFrame [] (addedFrames cvm (B @ A)))"
    by (rule finalSummary_perm)
  then show ?thesis by (simp add: finalHlMatches_eq finalSummary_filter_keep)
qed


theorem aggregation_commutes_witness:
  "finalSummary (finalHlMatches [] ([exFrame [97] [86] [exElement 120]] @ [exFrame [98] [86] [exElement 121]]))
   = finalSummary (finalHlMatches [] ([exFrame [98] [86] [exElement 121]] @ [exFrame [97] [86] [exElement 120]]))"
  by (rule aggregation_commutes)

section \<open>Properties of the response\<close>

text \<open>
  C2. The handler's result is the response built at the first \<open>return res.json(response)\<close>:
  \<open>ok\<close>, the count and list of \<open>jvxFrames\<close>, \<open>validHlMatches\<close>, and the broken-model and
  model-status lists collected from it. Whatever the statements after that return
  would compute (\<open>rest\<close>), they do not change the result.
\<close>

theorem response_is_first_return:
  "respond jvxFrames hlMatches rest =
     Return \<lparr>r_ok = True, r_count = length jvxFrames, r_frames = jvxFrames,
             r_hlMatches = validHlMatches hlMatches,
             r_brokenModels = collectBrokenModels (validHlMatches hlMatches),
             r_allModelStatuses = collectAllModelStatuses (validHlMatches hlMatches)\<rparr>
   \<and> apiCount doc variations frames content rest = apiCount doc variations frames content Next"
  by (simp add: respond_def thenStmt_def buildResponse_def apiCount_def Let_def)

lemma validHlMatches_Nil: "validHlMatches [] = []"
  by (simp add: validHlMatches_def)

theorem response_is_first_return_witness:
  "respond [\<lparr>jvxId = [97], src = []\<rparr>] []
      (Return \<lparr>r_ok = False, r_count = 7, r_frames = [], r_hlMatches = [],
               r_brokenModels = [], r_allModelStatuses = []\<rparr>)
   = Return \<lparr>r_ok = True, r_count = 1, r_frames = [\<lparr>jvxId = [97], src = []\<rparr>],
             r_hlMatches = [], r_brokenModels = [], r_allModelStatuses = []\<rparr>"
  using response_is_first_return [of "[\<lparr>jvxId = [97], src = []\<rparr>]" "[]"
      "Return \<lparr>r_ok = False, r_count = 7, r_frames = [], r_hlMatches = [],
               r_brokenModels = [], r_allModelStatuses = []\<rparr>"]
  by (simp add: validHlMatches_Nil collectBrokenModels_def collectAllModelStatuses_def)

text \<open>The fallback scan finds nothing where no marker id opens.\<close>

lemma startsWith_append_pat:
  "startsWith s (a @ b) \<longleftrightarrow> startsWith s a \<and> startsWith (drop (length a) s) b"
  by (induction s a rule: startsWith.induct) auto

lemma startsWith_includes: "startsWith s p \<Longrightarrow> includesStr s p"
  by (cases s; cases p) auto

lemma matchMarkerAt_opening:
  assumes "matchMarkerAt s = Some r"
  shows "startsWith s (markerOpening 34) \<or> startsWith s (markerOpening 39)"
proof -
  from assms have a: "startsWith s (str ''id='')"
    by (simp add: matchMarkerAt_def split: if_splits)
  with assms obtain q rest where d: "drop 3 s = q # rest" and q: "isQuote q"
    and j: "startsWith rest (str ''jvxBase_'')"
    by (auto simp: matchMarkerAt_def split: if_splits list.splits)
  have l: "length (str ''id='') = 3" by (simp add: str_def)
  have "startsWith s (markerOpening q)"
    unfolding markerOpening_def startsWith_append_pat l using a d j by simp
  with q show ?thesis by (auto simp: isQuote_def)
qed

lemma noMarkerOpening_tl: "noMarkerOpening (c # cs) \<Longrightarrow> noMarkerOpening cs"
  by (simp add: noMarkerOpening_def)

lemma noMarkerOpening_no_match: "noMarkerOpening s \<Longrightarrow> matchMarkerAt s = None"
proof (rule ccontr)
  assume n: "noMarkerOpening s" and "matchMarkerAt s \<noteq> None"
  then obtain r where "matchMarkerAt s = Some r" by auto
  from matchMarkerAt_opening[OF this] n show False
    by (auto simp: noMarkerOpening_def dest: startsWith_includes)
qed

lemma matchAll_no_opening: "noMarkerOpening s \<Longrightarrow> matchAllMarkers k s = []"
proof (induction s arbitrary: k)
  case Nil
  then show ?case by simp
next
  case (Cons c cs)
  from Cons.prems have t: "noMarkerOpening cs" by (rule noMarkerOpening_tl)
  from Cons.prems have "matchMarkerAt (c # cs) = None" by (rule noMarkerOpening_no_match)
  then show ?case using Cons.IH[OF t] by simp
qed

lemma startsWith_append_str:
  "startsWith (a @ b) p \<Longrightarrow> startsWith a p \<or> (length a < length p \<and> startsWith b (drop (length a) p))"
proof (induction a arbitrary: p)
  case Nil
  then show ?case by (cases p) auto
next
  case (Cons x a)
  then show ?case by (cases p) auto
qed

lemma opening_no_i_inside:
  assumes k: "0 < k" "k < length (markerOpening q)" and q: "q = 34 \<or> q = 39"
  shows "\<not> startsWith (105 # b) (drop k (markerOpening q))"
proof
  assume s: "startsWith (105 # b) (drop k (markerOpening q))"
  have sub: "set (drop k (markerOpening q)) \<subseteq> set (tl (markerOpening q))"
    using k(1) by (metis Suc_pred drop_Suc set_drop_subset)
  have no: "105 \<notin> set (tl (markerOpening q))"
    using q by (auto simp: markerOpening_def str_def)
  from k(2) obtain y ys where d: "drop k (markerOpening q) = y # ys"
    by (cases "drop k (markerOpening q)") auto
  with s have "y = 105" by simp
  with d sub no show False by auto
qed

text \<open>An opening cannot begin before the text \<open>id="jvxBase_xyz"\<close> and end inside it.\<close>

lemma opening_not_straddling:
  assumes "a \<noteq> []" and q: "q = 34 \<or> q = 39"
    and "startsWith (a @ 105 # b) (markerOpening q)"
  shows "startsWith a (markerOpening q)"
proof -
  from startsWith_append_str[OF assms(3)] show ?thesis
  proof
    assume "startsWith a (markerOpening q)"
    then show ?thesis .
  next
    assume h: "length a < length (markerOpening q)
               \<and> startsWith (105 # b) (drop (length a) (markerOpening q))"
    with assms(1) opening_no_i_inside[of "length a" q b] q show ?thesis by simp
  qed
qed

lemma matchMarkerAt_xyz:
  "matchMarkerAt ((str ''id='' @ [34] @ str ''jvxBase_xyz'' @ [34]) @ post)
     = Some (str ''jvxBase_xyz'', 16)"
  by (simp add: matchMarkerAt_def str_def isQuote_def)

lemma matchAll_skip: "matchAllMarkers (length a) (a @ b) = matchAllMarkers 0 b"
  by (induction a) simp_all

lemma matchAll_xyz:
  assumes "noMarkerOpening post"
  shows "matchAllMarkers 0 ((str ''id='' @ [34] @ str ''jvxBase_xyz'' @ [34]) @ post)
           = [str ''jvxBase_xyz'']"
proof -
  let ?lit = "str ''id='' @ [34] @ str ''jvxBase_xyz'' @ [34]"
  define rest where "rest = tl ?lit"
  have e: "?lit @ post = 105 # (rest @ post)" by (simp add: rest_def str_def)
  have len: "length rest = 15" by (simp add: rest_def str_def)
  have m: "matchMarkerAt (105 # (rest @ post)) = Some (str ''jvxBase_xyz'', 16)"
    using matchMarkerAt_xyz[of post] unfolding e .
  have "matchAllMarkers 0 (105 # (rest @ post))
          = str ''jvxBase_xyz'' # matchAllMarkers 15 (rest @ post)"
    by (simp add: m)
  moreover have "matchAllMarkers 15 (rest @ post) = matchAllMarkers 0 post"
    using matchAll_skip[of rest post] len by simp
  ultimately show ?thesis
    unfolding e using matchAll_no_opening[OF assms] by simp
qed

lemma matchAll_pre_xyz:
  assumes "noMarkerOpening pre" and "noMarkerOpening post"
  shows "matchAllMarkers 0 (pre @ (str ''id='' @ [34] @ str ''jvxBase_xyz'' @ [34]) @ post)
           = [str ''jvxBase_xyz'']"
  using assms(1)
proof (induction pre)
  case Nil
  then show ?case using matchAll_xyz[OF assms(2)] by simp
next
  case (Cons c pre)
  let ?lit = "str ''id='' @ [34] @ str ''jvxBase_xyz'' @ [34]"
  have l: "?lit @ post = 105 # (tl ?lit @ post)" by (simp add: str_def)
  have "matchMarkerAt ((c # pre) @ ?lit @ post) = None"
  proof (rule ccontr)
    assume "matchMarkerAt ((c # pre) @ ?lit @ post) \<noteq> None"
    then obtain r where "matchMarkerAt ((c # pre) @ ?lit @ post) = Some r" by auto
    from matchMarkerAt_opening[OF this] obtain q where q: "q = 34 \<or> q = 39"
      and s: "startsWith ((c # pre) @ ?lit @ post) (markerOpening q)" by auto
    from s have "startsWith ((c # pre) @ 105 # (tl ?lit @ post)) (markerOpening q)"
      unfolding l .
    then have "startsWith (c # pre) (markerOpening q)"
      by (rule opening_not_straddling[rotated 2]) (use q in simp_all)
    then have "includesStr (c # pre) (markerOpening q)" by (rule startsWith_includes)
    with Cons.prems q show False by (auto simp: noMarkerOpening_def)
  qed
  moreover have "noMarkerOpening pre" using Cons.prems by (rule noMarkerOpening_tl)
  ultimately show ?case using Cons.IH by simp
qed


lemma apiCount_eq:
  "apiCount doc variations frames content rest =
     Return (buildResponse (regexFallback (detectJvxFrames doc) content)
        (scanFrames (case variations of None \<Rightarrow> [] | Some vs \<Rightarrow> buildCreativeVariationMap vs) frames))"
  by (simp add: apiCount_def respond_def thenStmt_def Let_def)

lemma exHtml2_scan: "matchAllMarkers 0 exHtml2 = [str ''jvxBase_xyz'', str ''jvxBase_abc'']"
  by (simp add: exHtml2_def str_def matchMarkerAt_def isQuote_def)

lemma exHtml2_count:
  "countOccurrences exHtml2 (str ''id='' @ [34] @ str ''jvxBase_xyz'' @ [34]) = 1"
  by (simp add: exHtml2_def str_def)

text \<open>
  C8, as stated, fails: the page source \<open><a id="jvxBase_xyz"><b id="jvxBase_abc">\<close> holds
  the text \<open>id="jvxBase_xyz"\<close> exactly once and the DOM query finds no marker iframe, yet
  the fallback finds two ids and \<open>count\<close> is 2.
\<close>

theorem one_literal_count_two_counterexample:
  "detectJvxFrames (Some []) = []
   \<and> countOccurrences exHtml2 (str ''id='' @ [34] @ str ''jvxBase_xyz'' @ [34]) = 1
   \<and> apiCount (Some []) None [] (Some exHtml2) Next
       = Return \<lparr>r_ok = True, r_count = 2,
                 r_frames = [\<lparr>jvxId = str ''jvxBase_xyz'', src = []\<rparr>,
                             \<lparr>jvxId = str ''jvxBase_abc'', src = []\<rparr>],
                 r_hlMatches = [], r_brokenModels = [], r_allModelStatuses = []\<rparr>"
  using exHtml2_count
  by (simp add: apiCount_eq buildResponse_def regexFallback_def detectJvxFrames_def
      exHtml2_scan scanFrames_def validHlMatches_Nil
      collectBrokenModels_def collectAllModelStatuses_def)

text \<open>
  C8, amended. In every success response \<open>count\<close> is the length of \<open>frames\<close>. When the
  DOM query finds no marker iframe and the page source holds the text
  \<open>id="jvxBase_xyz"\<close> with no opening of a marker id (\<open>id="jvxBase_\<close> or
  \<open>id='jvxBase_\<close>) in what precedes it nor in what follows it, then \<open>frames\<close> is the one
  entry \<open>{id: "jvxBase_xyz", src: ""}\<close> and \<open>count\<close> is 1.
\<close>

theorem fallback_frames_and_count:
  assumes "apiCount doc variations frames content rest = Return resp"
  shows "r_count resp = length (r_frames resp) \<and>
         (detectJvxFrames doc = []
          \<and> content = Some (pre @ (str ''id='' @ [34] @ str ''jvxBase_xyz'' @ [34]) @ post)
          \<and> noMarkerOpening pre \<and> noMarkerOpening post
            \<longrightarrow> r_frames resp = [\<lparr>jvxId = str ''jvxBase_xyz'', src = []\<rparr>] \<and> r_count resp = 1)"
  using assms
  by (auto simp: apiCount_eq buildResponse_def Let_def regexFallback_def
      matchAll_pre_xyz[simplified])

theorem fallback_frames_and_count_witness:
  "apiCount (Some []) None [] (Some exHtml) Next
     = Return \<lparr>r_ok = True, r_count = 1,
               r_frames = [\<lparr>jvxId = str ''jvxBase_xyz'', src = []\<rparr>],
               r_hlMatches = [], r_brokenModels = [], r_allModelStatuses = []\<rparr>
   \<and> noMarkerOpening (str ''<iframe '') \<and> noMarkerOpening (str ''>'')"
proof -
  let ?resp = "\<lparr>r_ok = True, r_count = 1,
               r_frames = [\<lparr>jvxId = str ''jvxBase_xyz'', src = []\<rparr>],
               r_hlMatches = [], r_brokenModels = [], r_allModelStatuses = []\<rparr>"
  have n1: "noMarkerOpening (str ''<iframe '')" and n2: "noMarkerOpening (str ''>'')"
    by (simp_all add: noMarkerOpening_def markerOpening_def str_def)
  have a: "apiCount (Some []) None [] (Some exHtml) Next = Return ?resp"
    by (simp add: apiCount_eq buildResponse_def regexFallback_def detectJvxFrames_def
        exHtml_def matchAll_pre_xyz[OF n1 n2, simplified] scanFrames_def validHlMatches_Nil
        collectBrokenModels_def collectAllModelStatuses_def)
  have d: "detectJvxFrames (Some []) = []" by (simp add: detectJvxFrames_def)
  from fallback_frames_and_count [OF a, of "str ''<iframe ''" "str ''>''"] a d n1 n2
  show ?thesis by (simp add: exHtml_def)
qed

section \<open>Properties of the resolver\<close>

lemma assignedFrom_assign:
  "creativeElements st = [] \<Longrightarrow> usedElementSet st = used \<Longrightarrow> id' e \<notin> used \<Longrightarrow> Q e \<Longrightarrow>
   assignedFrom Q used (assign e st)"
  by (simp add: assignedFrom_def assign_def)

lemma assignedFrom_cases:
  assumes "assignedFrom Q used st"
  obtains (empty) "creativeElements st = []" "usedElementSet st = used"
  | (one) e where "creativeElements st = [e]" "Q e" "id' e \<notin> used"
      "usedElementSet st = insert (id' e) used"
  using assms unfolding assignedFrom_def by blast

lemma find_Some_mem: "find P xs = Some x \<Longrightarrow> x \<in> set xs \<and> P x"
  by (induction xs) (auto split: if_splits)

lemma strategy1_assigned:
  assumes "creativeElements st = []" "usedElementSet st = used"
    and q: "\<forall>e \<in> jvxElementsOf ebj. Q e"
  shows "assignedFrom Q used (strategy1 tt ci et ebj tfm st)"
proof -
  have base: "assignedFrom Q used st" using assms by (simp add: assignedFrom_def)
  have f: "assignedFrom Q used (assign e st)"
    if "find (\<lambda>fe. id' fe \<notin> usedElementSet st) xs = Some e" "map_of ebj k = Some fe"
       "set xs \<subseteq> set (frm1E fe @ frm2E fe @ frm3E fe @ frm4E fe)" for xs e k fe
  proof -
    from that(1) have m: "e \<in> set xs" "id' e \<notin> used" using find_Some_mem assms(2) by fastforce+
    from that(2) have "(k, fe) \<in> set ebj" by (rule map_of_SomeD)
    with m(1) that(3) have "e \<in> jvxElementsOf ebj" unfolding jvxElementsOf_def by blast
    with q m(2) assms show ?thesis by (intro assignedFrom_assign) auto
  qed
  show ?thesis
  proof (cases "map_of tfm (str ''jvxBase_'' @ tt @ str ''__container_'' @ indexToString ci)")
    case None
    then show ?thesis using base by (simp add: strategy1_def)
  next
    case (Some jid)
    show ?thesis
    proof (cases "jid = [] \<or> map_of ebj jid = None")
      case True
      then show ?thesis using base Some by (auto simp: strategy1_def)
    next
      case False
      then obtain fe where fe: "map_of ebj jid = Some fe" by auto
      let ?xs = "(if et = str ''frm1'' then frm1E fe
                  else if et = str ''frm2'' then frm2E fe
                  else if et = str ''frm3'' then frm3E fe
                  else if et = str ''frm4'' then frm4E fe else [])"
      have sub: "set ?xs \<subseteq> set (frm1E fe @ frm2E fe @ frm3E fe @ frm4E fe)" by auto
      have eq: "strategy1 tt ci et ebj tfm st =
                  (case find (\<lambda>fe. id' fe \<notin> usedElementSet st) ?xs of
                     None \<Rightarrow> st | Some e \<Rightarrow> assign e st)"
        using Some False fe by (simp add: strategy1_def Let_def)
      show ?thesis
      proof (cases "find (\<lambda>fe. id' fe \<notin> usedElementSet st) ?xs")
        case None
        then show ?thesis using base eq by simp
      next
        case (Some e)
        from f[OF Some fe sub] show ?thesis using eq Some by simp
      qed
    qed
  qed
qed

lemma strategy2_assigned:
  assumes "assignedFrom Q used st" and q: "\<forall>e \<in> set els. Q e"
  shows "assignedFrom Q used (strategy2 ci els st)"
  using assms(1)
proof (cases rule: assignedFrom_cases)
  case empty
  then show ?thesis using assms
    by (auto simp: strategy2_def Let_def split: option.splits intro!: assignedFrom_assign)
next
  case (one e)
  then show ?thesis using assms(1) by (simp add: strategy2_def split: option.splits)
qed

lemma firstAssociated_unused:
  "firstAssociated is els used = Some e \<Longrightarrow> id' e \<notin> used \<and> e \<in> set els"
  by (induction "is") (auto split: option.splits dest: find_Some_mem)

lemma strategy3_assigned:
  assumes "assignedFrom Q used st" and q: "\<forall>e \<in> set els. Q e"
  shows "assignedFrom Q used (strategy3 tt i ci els cam st)"
  using assms(1)
proof (cases rule: assignedFrom_cases)
  case empty
  then show ?thesis using assms
    by (auto simp: strategy3_def Let_def split: option.splits
             dest: firstAssociated_unused intro!: assignedFrom_assign)
next
  case (one e)
  then show ?thesis using assms(1) by (simp add: strategy3_def)
qed

lemma strategy4_assigned:
  assumes "assignedFrom Q used st" and u: "\<forall>e \<in> set unused. id' e \<notin> used \<and> Q e"
  shows "assignedFrom Q used (strategy4 tt pre unused st)"
  using assms(1)
proof (cases rule: assignedFrom_cases)
  case empty
  show ?thesis
  proof (cases "firstNumber tt")
    case None
    then show ?thesis using empty assms(1) by (simp add: strategy4_def)
  next
    case (Some numStr)
    let ?ms = "filter (\<lambda>el. id' el \<noteq> [] \<and> includesStr (id' el) numStr) unused"
    show ?thesis
    proof (cases "?ms = []")
      case True
      then show ?thesis using empty Some assms(1) by (simp add: strategy4_def)
    next
      case False
      obtain sel where sel: "strategy4 tt pre unused st = assign sel st" "sel \<in> set ?ms"
      proof (cases "find (\<lambda>el. includesStr (id' el) (45 # numStr)
                                   \<or> includesStr (id' el) (95 # numStr)
                                   \<or> includesStr (id' el) (numStr @ [45])
                                   \<or> includesStr (id' el) (numStr @ [95])
                                   \<or> includesStr (id' el) (120 # numStr)
                                   \<or> includesStr (id' el) (numStr @ [120])
                                   \<or> endsWith (id' el) numStr
                                   \<or> includesStr (id' el) (pre @ numStr)) ?ms")
        case None
        then have "strategy4 tt pre unused st = assign (hd ?ms) st"
          using empty Some False by (simp add: strategy4_def Let_def)
        moreover have "hd ?ms \<in> set ?ms" using False by (rule hd_in_set)
        ultimately show ?thesis using that by blast
      next
        case (Some e)
        then have "e \<in> set ?ms" using find_Some_mem by fast
        moreover have "strategy4 tt pre unused st = assign e st"
          using empty \<open>firstNumber tt = Some numStr\<close> False Some by (simp add: strategy4_def Let_def)
        ultimately show ?thesis using that by blast
      qed
      from sel(2) u have "id' sel \<notin> used" "Q sel" by simp_all
      with empty show ?thesis unfolding sel(1) by (intro assignedFrom_assign)
    qed
  qed
next
  case (one e)
  then show ?thesis using assms(1) by (simp add: strategy4_def)
qed

lemma strategy5_assigned:
  assumes "assignedFrom Q used st" and u: "\<forall>e \<in> set unused. id' e \<notin> used \<and> Q e"
  shows "assignedFrom Q used (strategy5 pvt tt tf tfm unused st)"
  using assms(1)
proof (cases rule: assignedFrom_cases)
  case empty
  let ?sf = "filter (\<lambda>el. efFrameUrl el = tf) unused"
  show ?thesis
  proof (cases "tf \<noteq> [] \<and> ?sf \<noteq> []")
    case False
    then show ?thesis using empty assms(1) by (auto simp: strategy5_def Let_def)
  next
    case True
    let ?fi = "findIndex (\<lambda>t. ptText t = tt)
                 (filter (\<lambda>t. (case map_of tfm (ptText t) of None \<Rightarrow> [] | Some u \<Rightarrow> u) = tf) pvt)"
    obtain n where n: "n < length ?sf" "strategy5 pvt tt tf tfm unused st = assign (?sf ! n) st"
    proof (cases "0 \<le> ?fi \<and> ?fi < int (length ?sf)")
      case inr: True
      then have "nat ?fi < length ?sf" by linarith
      moreover have "strategy5 pvt tt tf tfm unused st = assign (?sf ! nat ?fi) st"
        using empty True inr by (simp add: strategy5_def Let_def)
      ultimately show ?thesis using that by blast
    next
      case outr: False
      have "0 < length ?sf" using True by simp
      moreover have "strategy5 pvt tt tf tfm unused st = assign (?sf ! 0) st"
        using empty True outr by (auto simp: strategy5_def Let_def)
      ultimately show ?thesis using that by blast
    qed
    then have "?sf ! n \<in> set ?sf" by (intro nth_mem)
    with u have "id' (?sf ! n) \<notin> used" "Q (?sf ! n)" by simp_all
    with empty show ?thesis unfolding n(2) by (intro assignedFrom_assign)
  qed
next
  case (one e)
  then show ?thesis using assms(1) by (simp add: strategy5_def)
qed

lemma strategy6_assigned:
  assumes "assignedFrom Q used st" and u: "\<forall>e \<in> set unused. id' e \<notin> used \<and> Q e"
  shows "assignedFrom Q used (strategy6 i unused st)"
  using assms(1)
proof (cases rule: assignedFrom_cases)
  case empty
  then show ?thesis using assms(1) u
    by (auto simp: strategy6_def Let_def intro!: assignedFrom_assign)
next
  case (one e)
  then show ?thesis using assms(1) by (simp add: strategy6_def)
qed

lemma unusedElementsOf_unused:
  "\<forall>e \<in> set (allElements c). Q e \<Longrightarrow> \<forall>e \<in> set (unusedElementsOf c used). id' e \<notin> used \<and> Q e"
  by (simp add: unusedElementsOf_def)

lemma strategies1to5_assigned:
  assumes "\<forall>e \<in> set (allElements c). Q e" "\<forall>e \<in> jvxElementsOf (elementsByJvxBaseId c). Q e"
  shows "assignedFrom Q used (strategies1to5 pvt c used)"
  unfolding strategies1to5_def Let_def
  by (intro strategy5_assigned strategy4_assigned strategy3_assigned strategy2_assigned
        strategy1_assigned unusedElementsOf_unused assms) simp_all

lemma strategy6_all_assigned:
  assumes "\<forall>e \<in> set (allElements c). Q e" "\<forall>e \<in> jvxElementsOf (elementsByJvxBaseId c). Q e"
  shows "assignedFrom Q used
           (strategy6 (idx c) (unusedElementsOf c used) (strategies1to5 pvt c used))"
  by (intro strategy6_assigned strategies1to5_assigned unusedElementsOf_unused assms)

lemma associate_fresh:
  assumes "associateElementsForType pvt c used = (r, used')"
  shows "used \<subseteq> used' \<and> set (map id' r) \<subseteq> used' - used"
proof -
  let ?st6 = "strategy6 (idx c) (unusedElementsOf c used) (strategies1to5 pvt c used)"
  have a: "assignedFrom (\<lambda>e. True) used ?st6"
    by (rule strategy6_all_assigned) simp_all
  from assms have r: "r = dedupById (creativeElements ?st6) {}" and u: "used' = usedElementSet ?st6"
    by (simp_all add: associateElementsForType_def Let_def)
  from a show ?thesis
  proof (cases rule: assignedFrom_cases)
    case empty
    then show ?thesis using r u by simp
  next
    case (one e)
    then show ?thesis using r u by auto
  qed
qed

lemma length_resolveAll: "length (resolveAll pvt cs u) = length cs"
  by (induction cs arbitrary: u) (auto split: prod.splits)

lemma resolveAll_props:
  "(\<forall>r \<in> set (resolveAll pvt cs used). set (map id' r) \<inter> used = {}) \<and>
   (\<forall>i j. i < j \<and> j < length cs \<longrightarrow>
      set (map id' (resolveAll pvt cs used ! i)) \<inter> set (map id' (resolveAll pvt cs used ! j)) = {})"
proof (induction cs arbitrary: used)
  case Nil
  then show ?case by simp
next
  case (Cons c cs)
  obtain r used' where a: "associateElementsForType pvt c used = (r, used')"
    by (cases "associateElementsForType pvt c used")
  from associate_fresh[OF a] have sub: "used \<subseteq> used'" and fr: "set (map id' r) \<subseteq> used' - used"
    by simp_all
  have eq: "resolveAll pvt (c # cs) used = r # resolveAll pvt cs used'" using a by simp
  from Cons.IH[of used'] have
    t1: "\<forall>r' \<in> set (resolveAll pvt cs used'). set (map id' r') \<inter> used' = {}" and
    t2: "\<forall>i j. i < j \<and> j < length cs \<longrightarrow>
      set (map id' (resolveAll pvt cs used' ! i)) \<inter> set (map id' (resolveAll pvt cs used' ! j)) = {}"
    by simp_all
  have p1: "\<forall>r' \<in> set (resolveAll pvt (c # cs) used). set (map id' r') \<inter> used = {}"
    unfolding eq using t1 sub fr by auto
  have p2: "set (map id' (resolveAll pvt (c # cs) used ! i))
              \<inter> set (map id' (resolveAll pvt (c # cs) used ! j)) = {}"
    if "i < j" "j < length (c # cs)" for i j
  proof (cases i)
    case 0
    from that 0 obtain j' where j: "j = Suc j'" "j' < length cs" by (cases j) auto
    then have "resolveAll pvt cs used' ! j' \<in> set (resolveAll pvt cs used')"
      by (simp add: length_resolveAll)
    with t1 have "set (map id' (resolveAll pvt cs used' ! j')) \<inter> used' = {}" by blast
    with fr show ?thesis unfolding eq 0 j by auto
  next
    case (Suc i')
    from that Suc obtain j' where j: "j = Suc j'" "i' < j'" "j' < length cs" by (cases j) auto
    with t2 show ?thesis unfolding eq Suc j by simp
  qed
  from p1 p2 show ?case by blast
qed

text \<open>
  C4. In a sequence of calls of \<open>associateElementsForType\<close> for one category, sharing
  \<open>usedElementSet\<close>, the element ids returned by two different calls are disjoint
  (whatever the arguments of the calls and the initial set).
\<close>

theorem resolver_results_disjoint:
  assumes "i < j" and "j < length calls"
  shows "set (map id' (resolveAll pvt calls used ! i))
           \<inter> set (map id' (resolveAll pvt calls used ! j)) = {}"
  using resolveAll_props[of pvt calls used] assms by blast

lemma firstNumber_T: "firstNumber [84] = None"
  by (simp add: firstNumber_def isDigit_def)

lemma ex_strategies1to5:
  "strategies1to5 [] (exCall 3 (Some 0) [exEl 97, exEl 98, exEl 99]) {[97]}
     = \<lparr>creativeElements = [], usedElementSet = {[97]}\<rparr>"
  by (simp add: strategies1to5_def strategy1_def strategy2_def strategy3_def strategy4_def
      strategy5_def exCall_def exEl_def firstNumber_T unusedElementsOf_def Let_def)

lemma ex_unused:
  "unusedElementsOf (exCall 3 (Some 0) [exEl 97, exEl 98, exEl 99]) {[97]} = [exEl 98, exEl 99]"
  by (simp add: unusedElementsOf_def exCall_def exEl_def)

lemma exCall_sel: "idx (exCall i ci els) = i" "allElements (exCall i ci els) = els"
  "elementsByJvxBaseId (exCall i ci els) = []"
  by (simp_all add: exCall_def)

lemma three_mod_two: "(3::nat) mod Suc (Suc 0) = Suc 0"
  by (simp add: numeral_2_eq_2[symmetric])

lemma exEl_id: "id' (exEl c) = [c]"
  by (simp add: exEl_def)

lemma exEl_inj: "exEl a = exEl b \<longleftrightarrow> a = b"
  by (simp add: exEl_def)

text \<open>
  C5, as stated, fails: the fallback indexes \<open>unusedElements\<close> by \<open>idx\<close>, not by
  \<open>containerIndex\<close>. The call below has \<open>idx = 3\<close> and \<open>containerIndex = 0\<close>; the element at
  position 0 is used already, so strategies 1 to 5 assign nothing and two unused
  elements remain. The call returns the second of them (\<open>3 mod 2 = 1\<close>), where
  \<open>containerIndex mod 2 = 0\<close> names the first.
\<close>

theorem round_robin_containerIndex_counterexample:
  "creativeElements (strategies1to5 [] (exCall 3 (Some 0) [exEl 97, exEl 98, exEl 99]) {[97]}) = []
   \<and> unusedElementsOf (exCall 3 (Some 0) [exEl 97, exEl 98, exEl 99]) {[97]} = [exEl 98, exEl 99]
   \<and> fst (associateElementsForType [] (exCall 3 (Some 0) [exEl 97, exEl 98, exEl 99]) {[97]})
       = [exEl 99]
   \<and> [exEl 98, exEl 99] ! (nat 0 mod length [exEl 98, exEl 99]) = exEl 98
   \<and> exEl 99 \<noteq> exEl 98"
  by (simp add: associateElementsForType_def ex_strategies1to5 ex_unused strategy6_def assign_def
      exCall_sel exEl_id exEl_inj Let_def three_mod_two)

text \<open>
  C5, amended. With the ids of the collected elements non-empty (as the collection
  ensures) and an unused element of the category left, every call returns an element;
  and when strategies 1 to 5 assign nothing, the element returned is
  \<open>unusedElements[idx mod unusedElements.length]\<close>, \<open>idx\<close> being the third argument of
  the call (the creative's index).
\<close>

theorem round_robin_by_idx:
  assumes ne: "unusedElementsOf c used \<noteq> []"
    and wf: "\<forall>e \<in> set (allElements c). id' e \<noteq> []"
    and wfj: "\<forall>e \<in> jvxElementsOf (elementsByJvxBaseId c). id' e \<noteq> []"
  shows "fst (associateElementsForType pvt c used) \<noteq> [] \<and>
         (creativeElements (strategies1to5 pvt c used) = [] \<longrightarrow>
            fst (associateElementsForType pvt c used)
              = [unusedElementsOf c used ! (idx c mod length (unusedElementsOf c used))])"
proof -
  let ?un = "unusedElementsOf c used"
  let ?st5 = "strategies1to5 pvt c used"
  let ?st6 = "strategy6 (idx c) ?un ?st5"
  let ?e = "?un ! (idx c mod length ?un)"
  have r: "fst (associateElementsForType pvt c used) = dedupById (creativeElements ?st6) {}"
    by (simp add: associateElementsForType_def Let_def)
  have a: "assignedFrom (\<lambda>e. id' e \<noteq> []) used ?st6"
    by (rule strategy6_all_assigned) (use wf wfj in auto)
  have nonempty: "creativeElements ?st6 \<noteq> []"
    using ne by (auto simp: strategy6_def Let_def assign_def)
  have first: "fst (associateElementsForType pvt c used) \<noteq> []"
    using a
  proof (cases rule: assignedFrom_cases)
    case empty
    with nonempty show ?thesis by simp
  next
    case (one e)
    then show ?thesis using r by simp
  qed
  have second: "fst (associateElementsForType pvt c used) = [?e]"
    if "creativeElements ?st5 = []"
  proof -
    have "?e \<in> set ?un" using ne by (intro nth_mem) simp
    then have "id' ?e \<noteq> []" using wf by (auto simp: unusedElementsOf_def)
    moreover have "creativeElements ?st6 = [?e]"
      using that ne by (simp add: strategy6_def Let_def assign_def)
    ultimately show ?thesis using r by simp
  qed
  from first second show ?thesis by blast
qed

theorem round_robin_by_idx_witness:
  "fst (associateElementsForType [] (exCall 3 (Some 0) [exEl 97, exEl 98, exEl 99]) {[97]})
     = [exEl 99]"
proof -
  let ?c = "exCall 3 (Some 0) [exEl 97, exEl 98, exEl 99]"
  have ne: "unusedElementsOf ?c {[97]} \<noteq> []" by (simp add: ex_unused)
  have wf: "\<forall>e \<in> set (allElements ?c). id' e \<noteq> []" by (simp add: exCall_sel exEl_id)
  have wfj: "\<forall>e \<in> jvxElementsOf (elementsByJvxBaseId ?c). id' e \<noteq> []"
    by (simp add: exCall_sel jvxElementsOf_def)
  have e5: "creativeElements (strategies1to5 [] ?c {[97]}) = []" by (simp add: ex_strategies1to5)
  from round_robin_by_idx [OF ne wf wfj, of "[]"] e5 show ?thesis
    by (simp add: ex_unused exCall_sel three_mod_two)
qed

lemma ex_resolveAll:
  "resolveAll [] [exCall 2 (Some 0) [exEl 97, exEl 98], exCall 3 (Some 0) [exEl 97, exEl 98]] {}
     = [[exEl 97], [exEl 98]]"
  by (simp add: associateElementsForType_def strategies1to5_def strategy1_def strategy2_def
      strategy3_def strategy4_def strategy5_def strategy6_def exCall_def exEl_def firstNumber_T
      unusedElementsOf_def assign_def Let_def)

theorem resolver_results_disjoint_witness:
  "resolveAll [] [exCall 2 (Some 0) [exEl 97, exEl 98], exCall 3 (Some 0) [exEl 97, exEl 98]] {}
     = [[exEl 97], [exEl 98]]
   \<and> set (map id' (resolveAll [] [exCall 2 (Some 0) [exEl 97, exEl 98],
                                  exCall 3 (Some 0) [exEl 97, exEl 98]] {} ! 0))
     \<inter> set (map id' (resolveAll [] [exCall 2 (Some 0) [exEl 97, exEl 98],
                                    exCall 3 (Some 0) [exEl 97, exEl 98]] {} ! 1)) = {}"
proof -
  have h1: "(0::nat) < 1" by simp
  have h2: "1 < length [exCall 2 (Some 0) [exEl 97, exEl 98], exCall 3 (Some 0) [exEl 97, exEl 98]]"
    by simp
  from resolver_results_disjoint [OF h1 h2, of "[]" "{}"] ex_resolveAll show ?thesis by simp
qed

end
